theory Spec2Isabelle
  imports Complex_Main "HOL-Library.Sublist"
begin

section \<open>JavaScript values\<close>

text \<open>
  A JavaScript \<open>number\<close> is an IEEE double. Every finite double is a rational number, so
  the finite values are embedded into \<^typ>\<open>rat\<close> (a superset); the three special values
  are kept apart because the relational operators treat them specially.
\<close>

datatype number = Finite rat | NaN | PosInfinity | NegInfinity

text \<open>The operator \<open>a < b\<close> on numbers: false as soon as one side is \<open>NaN\<close>.\<close>

fun js_lt :: "number \<Rightarrow> number \<Rightarrow> bool" where
  "js_lt NaN b = False"
| "js_lt a NaN = False"
| "js_lt (Finite a) (Finite b) = (a < b)"
| "js_lt (Finite a) PosInfinity = True"
| "js_lt (Finite a) NegInfinity = False"
| "js_lt PosInfinity b = False"
| "js_lt NegInfinity NegInfinity = False"
| "js_lt NegInfinity b = True"

text \<open>The operator \<open>a > b\<close> is \<open>b < a\<close> with the operands evaluated in source order.\<close>

definition js_gt :: "number \<Rightarrow> number \<Rightarrow> bool" where
  "js_gt a b = js_lt b a"

text \<open>
  Values handed around by the wrappers. An object is the list of its own enumerable
  string-keyed properties in the order \<open>Object.keys\<close> reports them; a missing argument
  and an explicit \<open>undefined\<close> are both \<open>JUndefined\<close>.
\<close>

datatype jsval =
    JUndefined
  | JNull
  | JBool bool
  | JNum number
  | JStr string
  | JArr "jsval list"
  | JObj "(string \<times> jsval) list"

type_synonym jsobject = "(string \<times> jsval) list"

text \<open>\<open>Array.prototype.join(sep)\<close> on an array of strings.\<close>

fun join :: "string \<Rightarrow> string list \<Rightarrow> string" where
  "join sep [] = []"
| "join sep [x] = x"
| "join sep (x # y # ys) = x @ sep @ join sep (y # ys)"

text \<open>
  The abstract operation \<open>ToString\<close>, which a template literal applies to every
  interpolated value. The conversion of a number (\<open>Number::toString\<close>) is not part of the
  repository and is passed in as \<open>nts\<close>. An array converts through \<open>join(",")\<close>, where
  \<open>undefined\<close> and \<open>null\<close> elements become the empty string.
\<close>

fun ToString :: "(number \<Rightarrow> string) \<Rightarrow> jsval \<Rightarrow> string" where
  "ToString nts JUndefined = ''undefined''"
| "ToString nts JNull = ''null''"
| "ToString nts (JBool b) = (if b then ''true'' else ''false'')"
| "ToString nts (JNum n) = nts n"
| "ToString nts (JStr s) = s"
| "ToString nts (JArr xs) =
     join '','' (map (\<lambda>e. if e = JUndefined \<or> e = JNull then [] else ToString nts e) xs)"
| "ToString nts (JObj kvs) = ''[object Object]''"

text \<open>
  The abstract operation \<open>ToNumber\<close>, which a relational operator applies to an operand
  that it compares with a number. The conversion of a value that is not a number is not
  part of the repository and is passed in as \<open>tn\<close>.
\<close>

fun ToNumber :: "(jsval \<Rightarrow> number) \<Rightarrow> jsval \<Rightarrow> number" where
  "ToNumber tn (JNum n) = n"
| "ToNumber tn v = tn v"

text \<open>\<open>Object.keys(o)\<close> and the property read \<open>o[k]\<close>.\<close>

definition Object_keys :: "jsobject \<Rightarrow> string list" where
  "Object_keys obj = map fst obj"

definition get_prop :: "jsobject \<Rightarrow> string \<Rightarrow> jsval" where
  "get_prop obj k = (case map_of obj k of None \<Rightarrow> JUndefined | Some v \<Rightarrow> v)"

text \<open>Truthiness of an optional string: \<open>undefined\<close> and \<open>""\<close> are falsy.\<close>

definition truthy_string :: "string option \<Rightarrow> bool" where
  "truthy_string s = (case s of None \<Rightarrow> False | Some v \<Rightarrow> v \<noteq> [])"


section \<open>The dispatcher as seen by the wrappers\<close>

text \<open>
  One call \<open>requestHandler.request(url, verb, dataKind, payload)\<close>. Verb and data kind are
  the string literals of the source. An omitted fourth argument is \<open>JUndefined\<close>.
\<close>

record request_call =
  url :: string
  verb :: string
  dataKind :: string
  payload :: jsval

text \<open>
  The request handler is not among the sources; a wrapper only needs what a call to it
  returns (a promise, of an arbitrary type \<open>'r\<close>).
\<close>

type_synonym 'r requestHandler = "request_call \<Rightarrow> 'r"

datatype js_error = RangeError string

text \<open>
  How a method call ends for its caller. A method declared \<open>async\<close> never throws to the
  caller: a \<open>throw\<close> in its body rejects the promise it returns, and \<open>return p\<close> resolves
  that promise with \<open>p\<close>. A method that is not \<open>async\<close> hands back the value of its
  \<open>return\<close> expression itself, or lets an exception propagate.
\<close>

datatype 'r completion =
    Threw js_error
  | Returned 'r
  | AsyncRejected js_error
  | AsyncResolved 'r

text \<open>A run of a wrapper: the dispatcher calls it made, in order, and how it ended.\<close>

record 'r run =
  trace :: "request_call list"
  completion :: "'r completion"

definition request ::
  "'r requestHandler \<Rightarrow> string \<Rightarrow> string \<Rightarrow> string \<Rightarrow> jsval \<Rightarrow> request_call list \<times> 'r" where
  "request rh u v k p =
     (let c = \<lparr>url = u, verb = v, dataKind = k, payload = p\<rparr> in ([c], rh c))"

definition return_sync :: "request_call list \<times> 'r \<Rightarrow> 'r run" where
  "return_sync e = \<lparr>trace = fst e, completion = Returned (snd e)\<rparr>"

definition return_async :: "request_call list \<times> 'r \<Rightarrow> 'r run" where
  "return_async e = \<lparr>trace = fst e, completion = AsyncResolved (snd e)\<rparr>"

definition throw_async :: "js_error \<Rightarrow> 'r run" where
  "throw_async err = \<lparr>trace = [], completion = AsyncRejected err\<rparr>"


section \<open>Imported tables\<close>

text \<open>
  \<open>Endpoints\<close> and \<open>Constants\<close> are imported by the method files but are not among the
  sources, so they are parameters: \<open>Endpoints\<close> maps the name of a route and the ids it
  is applied to (none for a plain string such as \<open>Endpoints.GUILDS\<close>) to a path.
  The conversions of the language that the methods rely on, of a number to a string and
  of a value that is not a number to a number, are parameters as well.
\<close>

datatype endpoint =
    GATEWAY | GATEWAY_BOT | GUILD | GUILDS | GUILD_AUDIT_LOGS | GUILD_BAN | GUILD_BANS
  | GUILD_CHANNELS | GUILD_EMOJI | GUILD_EMOJIS | GUILD_INTEGRATION | GUILD_INTEGRATIONS
  | GUILD_INVITES | GUILD_MEMBER | GUILD_MEMBERS | GUILD_MEMBERS_SEARCH | GUILD_MEMBER_ROLE
  | GUILD_PREVIEW | GUILD_PRUNE | GUILD_ROLE | GUILD_ROLES | GUILD_STICKER | GUILD_STICKERS
  | GUILD_TEMPLATE | GUILD_TEMPLATES | GUILD_THREADS_ACTIVE | GUILD_VANITY
  | GUILD_VOICE_REGIONS | GUILD_VOICE_STATE_USER | GUILD_WELCOME_SCREEN | GUILD_WIDGET
  | GUILD_WIDGET_SETTINGS | INVITES | OAUTH2_APPLICATION | STICKER | TEMPLATE

record env =
  Endpoints :: "endpoint \<Rightarrow> string list \<Rightarrow> string"
  SEARCH_MEMBERS_MIN_RESULTS :: number
  SEARCH_MEMBERS_MAX_RESULTS :: number
  Number_toString :: "number \<Rightarrow> string"
  Value_toNumber :: "jsval \<Rightarrow> number"

text \<open>
  The query-string builder shared by \<open>getInvite\<close>, \<open>getGuildPruneCount\<close> and
  \<open>getGuildBans\<close>:
  \<^verbatim>\<open>Object.keys(q).map((v, index) => `${index === 0 ? "?" : "&"}${v}=${q[v]}`)\<close>
\<close>

definition query_fragments :: "env \<Rightarrow> jsobject \<Rightarrow> string list" where
  "query_fragments env q =
     map (\<lambda>(index, v). (if index = 0 then ''?'' else ''&'') @ v @ ''='' @
                         ToString (Number_toString env) (get_prop q v))
         (zip [0 ..< length (Object_keys q)] (Object_keys q))"


section \<open>Bot methods (Bots.ts)\<close>

definition getGateway :: "env \<Rightarrow> 'r requestHandler \<Rightarrow> 'r run" where
  "getGateway env rh = return_sync (request rh (Endpoints env GATEWAY []) ''get'' ''json'' JUndefined)"

definition getGatewayBot :: "env \<Rightarrow> 'r requestHandler \<Rightarrow> 'r run" where
  "getGatewayBot env rh =
     return_sync (request rh (Endpoints env GATEWAY_BOT []) ''get'' ''json'' JUndefined)"

text \<open>\<^verbatim>\<open>Endpoints.OAUTH2_APPLICATION(appID || '@me')\<close>\<close>

definition getOAuthApplication :: "env \<Rightarrow> 'r requestHandler \<Rightarrow> string option \<Rightarrow> 'r run" where
  "getOAuthApplication env rh appID =
     return_sync (request rh
       (Endpoints env OAUTH2_APPLICATION [if truthy_string appID then the appID else ''@me''])
       ''get'' ''json'' JUndefined)"


section \<open>Invite methods\<close>

definition getInvite :: "env \<Rightarrow> 'r requestHandler \<Rightarrow> string \<Rightarrow> jsobject option \<Rightarrow> 'r run" where
  "getInvite env rh inviteId query =
     return_async (request rh
       (Endpoints env INVITES [inviteId] @
          (case query of Some q \<Rightarrow> join [] (query_fragments env q) | None \<Rightarrow> []))
       ''get'' ''json'' JUndefined)"

definition deleteInvite :: "env \<Rightarrow> 'r requestHandler \<Rightarrow> string \<Rightarrow> 'r run" where
  "deleteInvite env rh inviteId =
     return_async (request rh (Endpoints env INVITES [inviteId]) ''delete'' ''json'' JUndefined)"


section \<open>Guild asset methods\<close>

text \<open>The payload \<^verbatim>\<open>reason ? { reason } : undefined\<close> of the delete-style wrappers.\<close>

definition reason_payload :: "string option \<Rightarrow> jsval" where
  "reason_payload reason =
     (if truthy_string reason then JObj [(''reason'', JStr (the reason))] else JUndefined)"

definition getEmojis :: "env \<Rightarrow> 'r requestHandler \<Rightarrow> string \<Rightarrow> 'r run" where
  "getEmojis env rh guildId =
     return_async (request rh (Endpoints env GUILD_EMOJIS [guildId]) ''get'' ''json'' JUndefined)"

definition getEmoji :: "env \<Rightarrow> 'r requestHandler \<Rightarrow> string \<Rightarrow> string \<Rightarrow> 'r run" where
  "getEmoji env rh guildId emojiId =
     return_async (request rh (Endpoints env GUILD_EMOJI [guildId, emojiId]) ''get'' ''json'' JUndefined)"

definition createEmoji :: "env \<Rightarrow> 'r requestHandler \<Rightarrow> string \<Rightarrow> jsval \<Rightarrow> 'r run" where
  "createEmoji env rh guildId data =
     return_async (request rh (Endpoints env GUILD_EMOJIS [guildId]) ''post'' ''json'' data)"

definition updateEmoji :: "env \<Rightarrow> 'r requestHandler \<Rightarrow> string \<Rightarrow> string \<Rightarrow> jsval \<Rightarrow> 'r run" where
  "updateEmoji env rh guildId emojiId data =
     return_async (request rh (Endpoints env GUILD_EMOJI [guildId, emojiId]) ''patch'' ''json'' data)"

definition deleteEmoji ::
  "env \<Rightarrow> 'r requestHandler \<Rightarrow> string \<Rightarrow> string \<Rightarrow> string option \<Rightarrow> 'r run" where
  "deleteEmoji env rh guildId emojiId reason =
     return_async (request rh (Endpoints env GUILD_EMOJI [guildId, emojiId]) ''delete'' ''json''
       (reason_payload reason))"

definition getSticker :: "env \<Rightarrow> 'r requestHandler \<Rightarrow> string \<Rightarrow> 'r run" where
  "getSticker env rh stickerId =
     return_async (request rh (Endpoints env STICKER [stickerId]) ''get'' ''json'' JUndefined)"

definition getGuildStickers :: "env \<Rightarrow> 'r requestHandler \<Rightarrow> string \<Rightarrow> 'r run" where
  "getGuildStickers env rh guildId =
     return_async (request rh (Endpoints env GUILD_STICKERS [guildId]) ''get'' ''json'' JUndefined)"

definition getGuildSticker :: "env \<Rightarrow> 'r requestHandler \<Rightarrow> string \<Rightarrow> string \<Rightarrow> 'r run" where
  "getGuildSticker env rh guildId stickerId =
     return_async (request rh (Endpoints env GUILD_STICKER [guildId, stickerId]) ''get'' ''json''
       JUndefined)"

definition createGuildSticker :: "env \<Rightarrow> 'r requestHandler \<Rightarrow> string \<Rightarrow> jsval \<Rightarrow> 'r run" where
  "createGuildSticker env rh guildId data =
     return_sync (request rh (Endpoints env GUILD_STICKERS [guildId]) ''post'' ''multipart'' data)"

definition updateGuildSticker ::
  "env \<Rightarrow> 'r requestHandler \<Rightarrow> string \<Rightarrow> string \<Rightarrow> jsval \<Rightarrow> 'r run" where
  "updateGuildSticker env rh guildId stickerId data =
     return_sync (request rh (Endpoints env GUILD_STICKER [guildId, stickerId]) ''patch'' ''json'' data)"

definition deleteGuildSticker ::
  "env \<Rightarrow> 'r requestHandler \<Rightarrow> string \<Rightarrow> string \<Rightarrow> string option \<Rightarrow> 'r run" where
  "deleteGuildSticker env rh guildId stickerId reason =
     return_sync (request rh (Endpoints env GUILD_STICKER [guildId, stickerId]) ''delete'' ''json''
       (reason_payload reason))"


section \<open>Guild template and audit log methods (GuildTemplate.ts)\<close>

definition getGuildTemplate :: "env \<Rightarrow> 'r requestHandler \<Rightarrow> string \<Rightarrow> 'r run" where
  "getGuildTemplate env rh code =
     return_sync (request rh (Endpoints env TEMPLATE [code]) ''get'' ''json'' JUndefined)"

definition createGuildFromGuildTemplate ::
  "env \<Rightarrow> 'r requestHandler \<Rightarrow> string \<Rightarrow> jsval \<Rightarrow> 'r run" where
  "createGuildFromGuildTemplate env rh code options =
     return_sync (request rh (Endpoints env TEMPLATE [code]) ''post'' ''json'' options)"

definition getGuildTemplates :: "env \<Rightarrow> 'r requestHandler \<Rightarrow> string \<Rightarrow> 'r run" where
  "getGuildTemplates env rh guildId =
     return_sync (request rh (Endpoints env GUILD_TEMPLATES [guildId]) ''get'' ''json'' JUndefined)"

definition createGuildTemplate :: "env \<Rightarrow> 'r requestHandler \<Rightarrow> string \<Rightarrow> jsval \<Rightarrow> 'r run" where
  "createGuildTemplate env rh guildId data =
     return_sync (request rh (Endpoints env GUILD_TEMPLATES [guildId]) ''post'' ''json'' data)"

definition syncGuildTemplate :: "env \<Rightarrow> 'r requestHandler \<Rightarrow> string \<Rightarrow> string \<Rightarrow> 'r run" where
  "syncGuildTemplate env rh guildId code =
     return_sync (request rh (Endpoints env GUILD_TEMPLATE [guildId, code]) ''put'' ''json'' JUndefined)"

definition modifyGuildTemplate ::
  "env \<Rightarrow> 'r requestHandler \<Rightarrow> string \<Rightarrow> string \<Rightarrow> jsval \<Rightarrow> 'r run" where
  "modifyGuildTemplate env rh guildId code data =
     return_sync (request rh (Endpoints env GUILD_TEMPLATE [guildId, code]) ''patch'' ''json'' data)"

definition deleteGuildTemplate :: "env \<Rightarrow> 'r requestHandler \<Rightarrow> string \<Rightarrow> string \<Rightarrow> 'r run" where
  "deleteGuildTemplate env rh guildId code =
     return_sync (request rh (Endpoints env GUILD_TEMPLATE [guildId, code]) ''delete'' ''json''
       JUndefined)"

definition getAuditLog :: "env \<Rightarrow> 'r requestHandler \<Rightarrow> string \<Rightarrow> jsval \<Rightarrow> 'r run" where
  "getAuditLog env rh guildId data =
     return_async (request rh (Endpoints env GUILD_AUDIT_LOGS [guildId]) ''get'' ''json'' data)"


section \<open>Guild methods (Guilds.ts)\<close>

definition createGuild ::
  "env \<Rightarrow> 'r requestHandler \<Rightarrow> jsval \<Rightarrow> 'r run" where
  "createGuild env rh data =
     return_async (request rh (Endpoints env GUILDS []) ''post'' ''json'' data)"

text \<open>\<^verbatim>\<open>`${Endpoints.GUILD(guildId)}${with_counts !== undefined ? `?with_counts=${with_counts}` : ""}`\<close>\<close>

definition getGuild :: "env \<Rightarrow> 'r requestHandler \<Rightarrow> string \<Rightarrow> bool option \<Rightarrow> 'r run" where
  "getGuild env rh guildId with_counts =
     return_async (request rh
       (Endpoints env GUILD [guildId] @
          (case with_counts of
             Some b \<Rightarrow> ''?with_counts='' @ ToString (Number_toString env) (JBool b)
           | None \<Rightarrow> []))
       ''get'' ''json'' JUndefined)"

definition getGuildPreview ::
  "env \<Rightarrow> 'r requestHandler \<Rightarrow> string \<Rightarrow> 'r run" where
  "getGuildPreview env rh guildId =
     return_async (request rh (Endpoints env GUILD_PREVIEW [guildId]) ''get'' ''json'' JUndefined)"

definition updateGuild ::
  "env \<Rightarrow> 'r requestHandler \<Rightarrow> string \<Rightarrow> jsval \<Rightarrow> 'r run" where
  "updateGuild env rh guildId data =
     return_async (request rh (Endpoints env GUILD [guildId]) ''patch'' ''json'' data)"

definition deleteGuild ::
  "env \<Rightarrow> 'r requestHandler \<Rightarrow> string \<Rightarrow> 'r run" where
  "deleteGuild env rh guildId =
     return_async (request rh (Endpoints env GUILD [guildId]) ''delete'' ''json'' JUndefined)"

definition getGuildChannels ::
  "env \<Rightarrow> 'r requestHandler \<Rightarrow> string \<Rightarrow> 'r run" where
  "getGuildChannels env rh guildId =
     return_async (request rh (Endpoints env GUILD_CHANNELS [guildId]) ''get'' ''json'' JUndefined)"

definition createGuildChannel ::
  "env \<Rightarrow> 'r requestHandler \<Rightarrow> string \<Rightarrow> jsval \<Rightarrow> 'r run" where
  "createGuildChannel env rh guildId data =
     return_async (request rh (Endpoints env GUILD_CHANNELS [guildId]) ''post'' ''json'' data)"

definition updateChannelPositions ::
  "env \<Rightarrow> 'r requestHandler \<Rightarrow> string \<Rightarrow> jsval \<Rightarrow> 'r run" where
  "updateChannelPositions env rh guildId data =
     return_async (request rh (Endpoints env GUILD_CHANNELS [guildId]) ''patch'' ''json'' data)"

definition listActiveThreads ::
  "env \<Rightarrow> 'r requestHandler \<Rightarrow> string \<Rightarrow> 'r run" where
  "listActiveThreads env rh guildId =
     return_async (request rh (Endpoints env GUILD_THREADS_ACTIVE [guildId])
       ''get'' ''json'' JUndefined)"

definition getGuildMember ::
  "env \<Rightarrow> 'r requestHandler \<Rightarrow> string \<Rightarrow> string \<Rightarrow> 'r run" where
  "getGuildMember env rh guildId memberId =
     return_async (request rh (Endpoints env GUILD_MEMBER [guildId, memberId])
       ''get'' ''json'' JUndefined)"

definition getGuildMembers ::
  "env \<Rightarrow> 'r requestHandler \<Rightarrow> string \<Rightarrow> jsval \<Rightarrow> 'r run" where
  "getGuildMembers env rh guildId data =
     return_async (request rh (Endpoints env GUILD_MEMBERS [guildId]) ''get'' ''json'' data)"

text \<open>
  The argument \<open>options: { query: string; limit?: number; }\<close> of \<open>searchGuildMembers\<close>
  is the caller's object: the method reads its \<open>limit\<close> and passes the object on as the
  payload as it is.
\<close>

definition search_limit_message :: "env \<Rightarrow> string" where
  "search_limit_message env =
     ''Limit for searching guild members has to be between '' @
     Number_toString env (SEARCH_MEMBERS_MIN_RESULTS env) @ '' and '' @
     Number_toString env (SEARCH_MEMBERS_MAX_RESULTS env)"

text \<open>
  \<^verbatim>\<open>if (options.limit !== undefined && (options.limit < MIN || options.limit > MAX)) throw new RangeError(...)\<close>
  in an \<open>async\<close> method, followed by the dispatch.
\<close>

definition searchGuildMembers ::
  "env \<Rightarrow> 'r requestHandler \<Rightarrow> string \<Rightarrow> jsobject \<Rightarrow> 'r run" where
  "searchGuildMembers env rh guildId options =
     (if get_prop options ''limit'' \<noteq> JUndefined \<and>
         (js_lt (ToNumber (Value_toNumber env) (get_prop options ''limit''))
            (SEARCH_MEMBERS_MIN_RESULTS env) \<or>
          js_gt (ToNumber (Value_toNumber env) (get_prop options ''limit''))
            (SEARCH_MEMBERS_MAX_RESULTS env))
      then throw_async (RangeError (search_limit_message env))
      else return_async (request rh (Endpoints env GUILD_MEMBERS_SEARCH [guildId]) ''get'' ''json''
             (JObj options)))"

definition addGuildMember ::
  "env \<Rightarrow> 'r requestHandler \<Rightarrow> string \<Rightarrow> string \<Rightarrow> jsval \<Rightarrow> 'r run" where
  "addGuildMember env rh guildId memberId data =
     return_async (request rh (Endpoints env GUILD_MEMBER [guildId, memberId])
       ''put'' ''json'' data)"

definition updateGuildMember ::
  "env \<Rightarrow> 'r requestHandler \<Rightarrow> string \<Rightarrow> string \<Rightarrow> jsval \<Rightarrow> 'r run" where
  "updateGuildMember env rh guildId memberId data =
     return_async (request rh (Endpoints env GUILD_MEMBER [guildId, memberId])
       ''patch'' ''json'' data)"

definition updateSelf ::
  "env \<Rightarrow> 'r requestHandler \<Rightarrow> string \<Rightarrow> jsval \<Rightarrow> 'r run" where
  "updateSelf env rh guildId data =
     return_async (request rh (Endpoints env GUILD_MEMBER [guildId, ''@me''])
       ''patch'' ''json'' data)"

definition addGuildMemberRole ::
  "env \<Rightarrow> 'r requestHandler \<Rightarrow> string \<Rightarrow> string \<Rightarrow> string \<Rightarrow> jsval \<Rightarrow> 'r run" where
  "addGuildMemberRole env rh guildId memberId roleId data =
     return_async (request rh (Endpoints env GUILD_MEMBER_ROLE [guildId, memberId, roleId])
       ''put'' ''json'' data)"

definition removeGuildMemberRole ::
  "env \<Rightarrow> 'r requestHandler \<Rightarrow> string \<Rightarrow> string \<Rightarrow> string \<Rightarrow> string option \<Rightarrow> 'r run" where
  "removeGuildMemberRole env rh guildId memberId roleId reason =
     return_async (request rh (Endpoints env GUILD_MEMBER_ROLE [guildId, memberId, roleId])
       ''delete'' ''json'' (reason_payload reason))"

definition removeGuildMember ::
  "env \<Rightarrow> 'r requestHandler \<Rightarrow> string \<Rightarrow> string \<Rightarrow> string option \<Rightarrow> 'r run" where
  "removeGuildMember env rh guildId memberId reason =
     return_async (request rh (Endpoints env GUILD_MEMBER [guildId, memberId])
       ''delete'' ''json'' (reason_payload reason))"

text \<open>
  \<open>getGuildBans\<close> interpolates the array that \<open>map\<close> returns: the template literal
  converts it with \<open>ToString\<close>.
\<close>

definition getGuildBans :: "env \<Rightarrow> 'r requestHandler \<Rightarrow> string \<Rightarrow> jsobject option \<Rightarrow> 'r run" where
  "getGuildBans env rh guildId options =
     return_async (request rh
       (Endpoints env GUILD_BANS [guildId] @
          (case options of
             Some q \<Rightarrow> ToString (Number_toString env) (JArr (map JStr (query_fragments env q)))
           | None \<Rightarrow> []))
       ''get'' ''json'' JUndefined)"

definition getGuildBan ::
  "env \<Rightarrow> 'r requestHandler \<Rightarrow> string \<Rightarrow> string \<Rightarrow> 'r run" where
  "getGuildBan env rh guildId memberId =
     return_async (request rh (Endpoints env GUILD_BAN [guildId, memberId])
       ''get'' ''json'' JUndefined)"

definition createGuildBan ::
  "env \<Rightarrow> 'r requestHandler \<Rightarrow> string \<Rightarrow> string \<Rightarrow> jsval \<Rightarrow> 'r run" where
  "createGuildBan env rh guildId memberId data =
     return_async (request rh (Endpoints env GUILD_BAN [guildId, memberId]) ''put'' ''json'' data)"

definition removeGuildBan ::
  "env \<Rightarrow> 'r requestHandler \<Rightarrow> string \<Rightarrow> string \<Rightarrow> string option \<Rightarrow> 'r run" where
  "removeGuildBan env rh guildId memberId reason =
     return_async (request rh (Endpoints env GUILD_BAN [guildId, memberId])
       ''delete'' ''json'' (reason_payload reason))"

definition getGuildRoles ::
  "env \<Rightarrow> 'r requestHandler \<Rightarrow> string \<Rightarrow> 'r run" where
  "getGuildRoles env rh guildId =
     return_async (request rh (Endpoints env GUILD_ROLES [guildId]) ''get'' ''json'' JUndefined)"

definition createGuildRole ::
  "env \<Rightarrow> 'r requestHandler \<Rightarrow> string \<Rightarrow> jsval \<Rightarrow> 'r run" where
  "createGuildRole env rh guildId data =
     return_async (request rh (Endpoints env GUILD_ROLES [guildId]) ''post'' ''json'' data)"

definition updateGuildRolePositions ::
  "env \<Rightarrow> 'r requestHandler \<Rightarrow> string \<Rightarrow> jsval \<Rightarrow> 'r run" where
  "updateGuildRolePositions env rh guildId data =
     return_async (request rh (Endpoints env GUILD_ROLES [guildId]) ''patch'' ''json'' data)"

definition updateGuildRole ::
  "env \<Rightarrow> 'r requestHandler \<Rightarrow> string \<Rightarrow> string \<Rightarrow> jsval \<Rightarrow> 'r run" where
  "updateGuildRole env rh guildId roleId data =
     return_async (request rh (Endpoints env GUILD_ROLE [guildId, roleId]) ''patch'' ''json'' data)"

definition removeGuildRole ::
  "env \<Rightarrow> 'r requestHandler \<Rightarrow> string \<Rightarrow> string \<Rightarrow> string option \<Rightarrow> 'r run" where
  "removeGuildRole env rh guildId roleId reason =
     return_async (request rh (Endpoints env GUILD_ROLE [guildId, roleId])
       ''delete'' ''json'' (reason_payload reason))"

definition getGuildPruneCount ::
  "env \<Rightarrow> 'r requestHandler \<Rightarrow> string \<Rightarrow> jsobject option \<Rightarrow> 'r run" where
  "getGuildPruneCount env rh guildId query' =
     return_async (request rh
       (Endpoints env GUILD_PRUNE [guildId] @
          (case query' of Some q \<Rightarrow> join [] (query_fragments env q) | None \<Rightarrow> []))
       ''get'' ''json'' JUndefined)"

definition startGuildPrune ::
  "env \<Rightarrow> 'r requestHandler \<Rightarrow> string \<Rightarrow> jsval \<Rightarrow> 'r run" where
  "startGuildPrune env rh guildId data =
     return_async (request rh (Endpoints env GUILD_PRUNE [guildId]) ''post'' ''json'' data)"

definition getGuildVoiceRegions ::
  "env \<Rightarrow> 'r requestHandler \<Rightarrow> string \<Rightarrow> 'r run" where
  "getGuildVoiceRegions env rh guildId =
     return_async (request rh (Endpoints env GUILD_VOICE_REGIONS [guildId])
       ''get'' ''json'' JUndefined)"

definition getGuildInvites ::
  "env \<Rightarrow> 'r requestHandler \<Rightarrow> string \<Rightarrow> 'r run" where
  "getGuildInvites env rh guildId =
     return_async (request rh (Endpoints env GUILD_INVITES [guildId]) ''get'' ''json'' JUndefined)"

definition getGuildIntegrations ::
  "env \<Rightarrow> 'r requestHandler \<Rightarrow> string \<Rightarrow> 'r run" where
  "getGuildIntegrations env rh guildId =
     return_async (request rh (Endpoints env GUILD_INTEGRATIONS [guildId])
       ''get'' ''json'' JUndefined)"

definition removeGuildIntegration ::
  "env \<Rightarrow> 'r requestHandler \<Rightarrow> string \<Rightarrow> string \<Rightarrow> string option \<Rightarrow> 'r run" where
  "removeGuildIntegration env rh guildId integrationId reason =
     return_async (request rh (Endpoints env GUILD_INTEGRATION [guildId, integrationId])
       ''delete'' ''json'' (reason_payload reason))"

definition getGuildWidgetSettings ::
  "env \<Rightarrow> 'r requestHandler \<Rightarrow> string \<Rightarrow> 'r run" where
  "getGuildWidgetSettings env rh guildId =
     return_async (request rh (Endpoints env GUILD_WIDGET_SETTINGS [guildId])
       ''get'' ''json'' JUndefined)"

definition updateGuildWidgetSettings ::
  "env \<Rightarrow> 'r requestHandler \<Rightarrow> string \<Rightarrow> jsval \<Rightarrow> 'r run" where
  "updateGuildWidgetSettings env rh guildId data =
     return_async (request rh (Endpoints env GUILD_WIDGET_SETTINGS [guildId])
       ''patch'' ''json'' data)"

definition getGuildWidget ::
  "env \<Rightarrow> 'r requestHandler \<Rightarrow> string \<Rightarrow> 'r run" where
  "getGuildWidget env rh guildId =
     return_async (request rh (Endpoints env GUILD_WIDGET [guildId]) ''get'' ''json'' JUndefined)"

definition getGuildVanityURL ::
  "env \<Rightarrow> 'r requestHandler \<Rightarrow> string \<Rightarrow> 'r run" where
  "getGuildVanityURL env rh guildId =
     return_async (request rh (Endpoints env GUILD_VANITY [guildId]) ''get'' ''json'' JUndefined)"

definition getGuildWelcomeScreen ::
  "env \<Rightarrow> 'r requestHandler \<Rightarrow> string \<Rightarrow> 'r run" where
  "getGuildWelcomeScreen env rh guildId =
     return_async (request rh (Endpoints env GUILD_WELCOME_SCREEN [guildId])
       ''get'' ''json'' JUndefined)"

definition editGuildWelcomeScreen ::
  "env \<Rightarrow> 'r requestHandler \<Rightarrow> string \<Rightarrow> jsval \<Rightarrow> 'r run" where
  "editGuildWelcomeScreen env rh guildId data =
     return_async (request rh (Endpoints env GUILD_WELCOME_SCREEN [guildId])
       ''patch'' ''json'' data)"

definition updateCurrentUserVoiceState ::
  "env \<Rightarrow> 'r requestHandler \<Rightarrow> string \<Rightarrow> jsval \<Rightarrow> 'r run" where
  "updateCurrentUserVoiceState env rh guildId data =
     return_sync (request rh (Endpoints env GUILD_VOICE_STATE_USER [guildId, ''@me''])
       ''patch'' ''json'' data)"

definition updateUserVoiceState ::
  "env \<Rightarrow> 'r requestHandler \<Rightarrow> string \<Rightarrow> string \<Rightarrow> jsval \<Rightarrow> 'r run" where
  "updateUserVoiceState env rh guildId userId data =
     return_sync (request rh (Endpoints env GUILD_VOICE_STATE_USER [guildId, userId])
       ''patch'' ''json'' data)"


section \<open>The catalogue of wrapper calls\<close>

text \<open>
  One constructor per public method of the method classes, carrying the arguments of the
  call, so that a statement about every wrapper is a statement about every value of
  \<open>invocation\<close>; \<open>invoke\<close> performs the call.
\<close>

datatype bot_call =
    GetGateway | GetGatewayBot | GetOAuthApplication "string option"

fun invoke_bot :: "env \<Rightarrow> 'r requestHandler \<Rightarrow> bot_call \<Rightarrow> 'r run" where
  "invoke_bot env rh GetGateway = getGateway env rh"
| "invoke_bot env rh GetGatewayBot = getGatewayBot env rh"
| "invoke_bot env rh (GetOAuthApplication a1) = getOAuthApplication env rh a1"

datatype invite_call =
    GetInvite string "jsobject option" | DeleteInvite string

fun invoke_invite :: "env \<Rightarrow> 'r requestHandler \<Rightarrow> invite_call \<Rightarrow> 'r run" where
  "invoke_invite env rh (GetInvite a1 a2) = getInvite env rh a1 a2"
| "invoke_invite env rh (DeleteInvite a1) = deleteInvite env rh a1"

datatype guild_assets_call =
    GetEmojis string | GetEmoji string string | CreateEmoji string jsval
   | UpdateEmoji string string jsval | DeleteEmoji string string "string option"
   | GetSticker string | GetGuildStickers string | GetGuildSticker string string
   | CreateGuildSticker string jsval | UpdateGuildSticker string string jsval
   | DeleteGuildSticker string string "string option"

fun invoke_guild_assets :: "env \<Rightarrow> 'r requestHandler \<Rightarrow> guild_assets_call \<Rightarrow> 'r run" where
  "invoke_guild_assets env rh (GetEmojis a1) = getEmojis env rh a1"
| "invoke_guild_assets env rh (GetEmoji a1 a2) = getEmoji env rh a1 a2"
| "invoke_guild_assets env rh (CreateEmoji a1 a2) = createEmoji env rh a1 a2"
| "invoke_guild_assets env rh (UpdateEmoji a1 a2 a3) = updateEmoji env rh a1 a2 a3"
| "invoke_guild_assets env rh (DeleteEmoji a1 a2 a3) = deleteEmoji env rh a1 a2 a3"
| "invoke_guild_assets env rh (GetSticker a1) = getSticker env rh a1"
| "invoke_guild_assets env rh (GetGuildStickers a1) = getGuildStickers env rh a1"
| "invoke_guild_assets env rh (GetGuildSticker a1 a2) = getGuildSticker env rh a1 a2"
| "invoke_guild_assets env rh (CreateGuildSticker a1 a2) = createGuildSticker env rh a1 a2"
| "invoke_guild_assets env rh (UpdateGuildSticker a1 a2 a3) = updateGuildSticker env rh a1 a2 a3"
| "invoke_guild_assets env rh (DeleteGuildSticker a1 a2 a3) = deleteGuildSticker env rh a1 a2 a3"

datatype guild_template_call =
    GetGuildTemplate string | CreateGuildFromGuildTemplate string jsval
   | GetGuildTemplates string | CreateGuildTemplate string jsval
   | SyncGuildTemplate string string | ModifyGuildTemplate string string jsval
   | DeleteGuildTemplate string string

fun invoke_guild_template :: "env \<Rightarrow> 'r requestHandler \<Rightarrow> guild_template_call \<Rightarrow> 'r run" where
  "invoke_guild_template env rh (GetGuildTemplate a1) = getGuildTemplate env rh a1"
| "invoke_guild_template env rh (CreateGuildFromGuildTemplate a1 a2) = createGuildFromGuildTemplate env rh a1 a2"
| "invoke_guild_template env rh (GetGuildTemplates a1) = getGuildTemplates env rh a1"
| "invoke_guild_template env rh (CreateGuildTemplate a1 a2) = createGuildTemplate env rh a1 a2"
| "invoke_guild_template env rh (SyncGuildTemplate a1 a2) = syncGuildTemplate env rh a1 a2"
| "invoke_guild_template env rh (ModifyGuildTemplate a1 a2 a3) = modifyGuildTemplate env rh a1 a2 a3"
| "invoke_guild_template env rh (DeleteGuildTemplate a1 a2) = deleteGuildTemplate env rh a1 a2"

datatype audit_log_call = GetAuditLog string jsval

fun invoke_audit_log :: "env \<Rightarrow> 'r requestHandler \<Rightarrow> audit_log_call \<Rightarrow> 'r run" where
  "invoke_audit_log env rh (GetAuditLog a1 a2) = getAuditLog env rh a1 a2"

datatype guild_call =
    CreateGuild jsval | GetGuild string "bool option" | GetGuildPreview string
   | UpdateGuild string jsval | DeleteGuild string | GetGuildChannels string
   | CreateGuildChannel string jsval | UpdateChannelPositions string jsval
   | ListActiveThreads string | GetGuildMember string string | GetGuildMembers string jsval
   | SearchGuildMembers string jsobject | AddGuildMember string string jsval
   | UpdateGuildMember string string jsval | UpdateSelf string jsval
   | AddGuildMemberRole string string string jsval
   | RemoveGuildMemberRole string string string "string option"
   | RemoveGuildMember string string "string option" | GetGuildBans string "jsobject option"
   | GetGuildBan string string | CreateGuildBan string string jsval
   | RemoveGuildBan string string "string option" | GetGuildRoles string
   | CreateGuildRole string jsval | UpdateGuildRolePositions string jsval
   | UpdateGuildRole string string jsval | RemoveGuildRole string string "string option"
   | GetGuildPruneCount string "jsobject option" | StartGuildPrune string jsval
   | GetGuildVoiceRegions string | GetGuildInvites string | GetGuildIntegrations string
   | RemoveGuildIntegration string string "string option" | GetGuildWidgetSettings string
   | UpdateGuildWidgetSettings string jsval | GetGuildWidget string | GetGuildVanityURL string
   | GetGuildWelcomeScreen string | EditGuildWelcomeScreen string jsval
   | UpdateCurrentUserVoiceState string jsval | UpdateUserVoiceState string string jsval

fun invoke_guild :: "env \<Rightarrow> 'r requestHandler \<Rightarrow> guild_call \<Rightarrow> 'r run" where
  "invoke_guild env rh (CreateGuild a1) = createGuild env rh a1"
| "invoke_guild env rh (GetGuild a1 a2) = getGuild env rh a1 a2"
| "invoke_guild env rh (GetGuildPreview a1) = getGuildPreview env rh a1"
| "invoke_guild env rh (UpdateGuild a1 a2) = updateGuild env rh a1 a2"
| "invoke_guild env rh (DeleteGuild a1) = deleteGuild env rh a1"
| "invoke_guild env rh (GetGuildChannels a1) = getGuildChannels env rh a1"
| "invoke_guild env rh (CreateGuildChannel a1 a2) = createGuildChannel env rh a1 a2"
| "invoke_guild env rh (UpdateChannelPositions a1 a2) = updateChannelPositions env rh a1 a2"
| "invoke_guild env rh (ListActiveThreads a1) = listActiveThreads env rh a1"
| "invoke_guild env rh (GetGuildMember a1 a2) = getGuildMember env rh a1 a2"
| "invoke_guild env rh (GetGuildMembers a1 a2) = getGuildMembers env rh a1 a2"
| "invoke_guild env rh (SearchGuildMembers a1 a2) = searchGuildMembers env rh a1 a2"
| "invoke_guild env rh (AddGuildMember a1 a2 a3) = addGuildMember env rh a1 a2 a3"
| "invoke_guild env rh (UpdateGuildMember a1 a2 a3) = updateGuildMember env rh a1 a2 a3"
| "invoke_guild env rh (UpdateSelf a1 a2) = updateSelf env rh a1 a2"
| "invoke_guild env rh (AddGuildMemberRole a1 a2 a3 a4) = addGuildMemberRole env rh a1 a2 a3 a4"
| "invoke_guild env rh (RemoveGuildMemberRole a1 a2 a3 a4) = removeGuildMemberRole env rh a1 a2 a3 a4"
| "invoke_guild env rh (RemoveGuildMember a1 a2 a3) = removeGuildMember env rh a1 a2 a3"
| "invoke_guild env rh (GetGuildBans a1 a2) = getGuildBans env rh a1 a2"
| "invoke_guild env rh (GetGuildBan a1 a2) = getGuildBan env rh a1 a2"
| "invoke_guild env rh (CreateGuildBan a1 a2 a3) = createGuildBan env rh a1 a2 a3"
| "invoke_guild env rh (RemoveGuildBan a1 a2 a3) = removeGuildBan env rh a1 a2 a3"
| "invoke_guild env rh (GetGuildRoles a1) = getGuildRoles env rh a1"
| "invoke_guild env rh (CreateGuildRole a1 a2) = createGuildRole env rh a1 a2"
| "invoke_guild env rh (UpdateGuildRolePositions a1 a2) = updateGuildRolePositions env rh a1 a2"
| "invoke_guild env rh (UpdateGuildRole a1 a2 a3) = updateGuildRole env rh a1 a2 a3"
| "invoke_guild env rh (RemoveGuildRole a1 a2 a3) = removeGuildRole env rh a1 a2 a3"
| "invoke_guild env rh (GetGuildPruneCount a1 a2) = getGuildPruneCount env rh a1 a2"
| "invoke_guild env rh (StartGuildPrune a1 a2) = startGuildPrune env rh a1 a2"
| "invoke_guild env rh (GetGuildVoiceRegions a1) = getGuildVoiceRegions env rh a1"
| "invoke_guild env rh (GetGuildInvites a1) = getGuildInvites env rh a1"
| "invoke_guild env rh (GetGuildIntegrations a1) = getGuildIntegrations env rh a1"
| "invoke_guild env rh (RemoveGuildIntegration a1 a2 a3) = removeGuildIntegration env rh a1 a2 a3"
| "invoke_guild env rh (GetGuildWidgetSettings a1) = getGuildWidgetSettings env rh a1"
| "invoke_guild env rh (UpdateGuildWidgetSettings a1 a2) = updateGuildWidgetSettings env rh a1 a2"
| "invoke_guild env rh (GetGuildWidget a1) = getGuildWidget env rh a1"
| "invoke_guild env rh (GetGuildVanityURL a1) = getGuildVanityURL env rh a1"
| "invoke_guild env rh (GetGuildWelcomeScreen a1) = getGuildWelcomeScreen env rh a1"
| "invoke_guild env rh (EditGuildWelcomeScreen a1 a2) = editGuildWelcomeScreen env rh a1 a2"
| "invoke_guild env rh (UpdateCurrentUserVoiceState a1 a2) = updateCurrentUserVoiceState env rh a1 a2"
| "invoke_guild env rh (UpdateUserVoiceState a1 a2 a3) = updateUserVoiceState env rh a1 a2 a3"

datatype invocation =
    Bot bot_call
  | Invite invite_call
  | GuildAssets guild_assets_call
  | GuildTemplate guild_template_call
  | AuditLog audit_log_call
  | Guild guild_call

fun invoke :: "env \<Rightarrow> 'r requestHandler \<Rightarrow> invocation \<Rightarrow> 'r run" where
  "invoke env rh (Bot c) = invoke_bot env rh c"
| "invoke env rh (Invite c) = invoke_invite env rh c"
| "invoke env rh (GuildAssets c) = invoke_guild_assets env rh c"
| "invoke env rh (GuildTemplate c) = invoke_guild_template env rh c"
| "invoke env rh (AuditLog c) = invoke_audit_log env rh c"
| "invoke env rh (Guild c) = invoke_guild env rh c"


text \<open>The call a run handed to the dispatcher, when it made exactly one.\<close>

definition dispatched :: "'r run \<Rightarrow> request_call option" where
  "dispatched r = (case trace r of [c] \<Rightarrow> Some c | _ \<Rightarrow> None)"

text \<open>Whether a run ended with an exception thrown to the caller.\<close>

definition threw :: "'r run \<Rightarrow> bool" where
  "threw r = (case completion r of Threw e \<Rightarrow> True | _ \<Rightarrow> False)"

text \<open>
  Whether a call is a \<open>searchGuildMembers\<close> whose limit fails the range check of that
  method (the condition of its \<open>if\<close>).
\<close>

definition limit_out_of_range :: "env \<Rightarrow> invocation \<Rightarrow> bool" where
  "limit_out_of_range env i =
     (case i of
        Guild (SearchGuildMembers guildId options) \<Rightarrow>
          get_prop options ''limit'' \<noteq> JUndefined \<and>
          (js_lt (ToNumber (Value_toNumber env) (get_prop options ''limit''))
             (SEARCH_MEMBERS_MIN_RESULTS env) \<or>
           js_gt (ToNumber (Value_toNumber env) (get_prop options ''limit''))
             (SEARCH_MEMBERS_MAX_RESULTS env))
      | _ \<Rightarrow> False)"


text \<open>
  An instance of the imported tables for running examples: paths made of the ids, the
  bounds 1 and 1000, a number conversion that prints these two bounds, and a conversion to
  a number that gives \<open>NaN\<close>.
\<close>

definition example_env :: env where
  "example_env =
     \<lparr>Endpoints = (\<lambda>e ids. concat (map (\<lambda>i. ''/'' @ i) ids)),
      SEARCH_MEMBERS_MIN_RESULTS = Finite 1,
      SEARCH_MEMBERS_MAX_RESULTS = Finite 1000,
      Number_toString = (\<lambda>n. if n = Finite 1 then ''1'' else if n = Finite 1000 then ''1000''
                                else ''?''),
      Value_toNumber = (\<lambda>v. NaN)\<rparr>"


section \<open>Rate-limit bookkeeping (Bucket Store)\<close>

text \<open>
  The request handler that the method classes import is not among the sources. Its
  components are modelled from the specification of the repository; each definition of
  this and the following sections says which sentences it follows.
\<close>

text \<open>
  Modelled from the spec: the instants (\<open>resetAt\<close>, ``current time'') and durations
  (\<open>Retry-After\<close>, backoff) of the missing scheduler, in milliseconds.
\<close>

type_synonym time = nat

text \<open>
  Modelled from the spec: the Route Key, ``a normalized (verb, path-template-with-major-parameter)
  pair'', whose computation (the Route Key Resolver) is missing from the sources.
\<close>

datatype route_key = RouteKey string string

text \<open>
  Modelled from the spec: the Request (job) of the missing scheduler, ``route, verb, payload
  kind, payload, attempt counter, completion handle''. The completion handle is named by
  \<open>jid\<close>, which also records the order of submission; \<open>forced\<close> counts the redispatches
  after a 429, which the specification bounds separately from \<open>attempt\<close>; \<open>notBefore\<close> is
  the end of the delay of a rescheduled Request.
\<close>

record job =
  jid :: nat
  call :: request_call
  attempt :: nat
  forced :: nat
  notBefore :: time

text \<open>
  Modelled from the spec: the Bucket record of the missing Bucket Store, with \<open>limit\<close>,
  \<open>remaining\<close>, \<open>resetAt\<close>, \<open>queue\<close> and \<open>inFlight\<close>. An unknown limit or remaining
  count is \<open>None\<close>.
\<close>

record bucket =
  b_limit :: "nat option"
  b_remaining :: "int option"
  b_resetAt :: time
  queue :: "job list"
  inFlight :: bool

text \<open>
  Modelled from the spec: the state in which the missing \<open>get_or_create\<close> creates a
  Bucket, ``\<open>limit=\<infinity>\<close>-equivalent (unknown) state so the first request for a new route is
  never blocked''.
\<close>

definition new_bucket :: bucket where
  "new_bucket = \<lparr>b_limit = None, b_remaining = None, b_resetAt = 0, queue = [], inFlight = False\<rparr>"

text \<open>
  Modelled from the spec: the overwrite step of the missing \<open>reconcile\<close>, ``always
  overwrite \<open>limit\<close>/\<open>remaining\<close>/\<open>resetAt\<close> with the freshest values (monotonic: a
  \<open>resetAt\<close> from a stale/out-of-order response older than the currently stored one must
  not roll the window backward)''. Values whose \<open>reset_at\<close> is older than the stored one are
  stale and are not written.
\<close>

definition refresh :: "bucket \<Rightarrow> nat \<Rightarrow> int \<Rightarrow> time \<Rightarrow> bucket" where
  "refresh b l r reset_at =
     (if b_resetAt b \<le> reset_at
      then b\<lparr>b_limit := Some l, b_remaining := Some r, b_resetAt := reset_at\<rparr>
      else b)"

text \<open>
  Modelled from the spec: the identity of a Bucket in the missing Bucket Store, ``either
  a Route Key (provisional) or a server-issued bucket id (authoritative, once observed)''.
\<close>

datatype bucket_id = Provisional route_key | Authoritative string

text \<open>
  Modelled from the spec: the missing Bucket Store, a registry of Bucket records behind
  ``an indirection table (Route Key \<open>\<rightarrow>\<close> canonical Bucket id)''.
\<close>

record store =
  canonical :: "route_key \<Rightarrow> bucket_id option"
  records :: "bucket_id \<Rightarrow> bucket option"

text \<open>
  Modelled from the spec: the missing \<open>get_or_create(route_key)\<close>, ``returns existing
  Bucket for the key, else creates one''; the result is the store with the Bucket in
  place.
\<close>

definition get_or_create :: "store \<Rightarrow> route_key \<Rightarrow> store" where
  "get_or_create st rk =
     (case canonical st rk of
        Some i \<Rightarrow> st
      | None \<Rightarrow> st\<lparr>canonical := (canonical st)(rk \<mapsto> Provisional rk),
                    records := (records st)(Provisional rk \<mapsto> new_bucket)\<rparr>)"

text \<open>
  Modelled from the spec: the lookup of the Bucket of a Route Key in the missing Bucket
  Store, through the indirection table.
\<close>

definition bucket_of :: "store \<Rightarrow> route_key \<Rightarrow> bucket option" where
  "bucket_of st rk = (case canonical st rk of None \<Rightarrow> None | Some i \<Rightarrow> records st i)"

text \<open>
  Modelled from the spec: the queue of two merged Bucket records of the missing Bucket
  Store, ``their queues are concatenated preserving relative FIFO order by original
  enqueue time''; the enqueue order is the order of the \<open>jid\<close>s.
\<close>

fun merge_queues :: "job list \<Rightarrow> job list \<Rightarrow> job list" where
  "merge_queues [] ys = ys"
| "merge_queues xs [] = xs"
| "merge_queues (x # xs) (y # ys) =
     (if jid x \<le> jid y then x # merge_queues xs (y # ys) else y # merge_queues (x # xs) ys)"

text \<open>
  Modelled from the spec: the merge of two Bucket records in the missing Bucket Store.
  The window of the merged record is the fresher of the two, and the record is in flight
  if one of the two is.
\<close>

definition merge_buckets :: "bucket \<Rightarrow> bucket \<Rightarrow> bucket" where
  "merge_buckets a b =
     (if b_resetAt a \<le> b_resetAt b
      then b\<lparr>queue := merge_queues (queue a) (queue b), inFlight := (inFlight a \<or> inFlight b)\<rparr>
      else a\<lparr>queue := merge_queues (queue a) (queue b), inFlight := (inFlight a \<or> inFlight b)\<rparr>)"

text \<open>
  Modelled from the spec: the update of the indirection table of the missing Bucket Store
  when a record is renamed or merged: every Route Key that resolved to the old identity
  resolves to the new one, so that ``lookups for either Route Key resolve to the merged
  Bucket''.
\<close>

definition redirect :: "store \<Rightarrow> bucket_id \<Rightarrow> bucket_id \<Rightarrow> route_key \<Rightarrow> bucket_id option" where
  "redirect st old new k = (if canonical st k = Some old then Some new else canonical st k)"

text \<open>
  Modelled from the spec: the missing
  \<open>reconcile(route_key, server_bucket_id, limit, remaining, reset_at)\<close>: ``if
  \<open>server_bucket_id\<close> is new, promote/rename the Bucket; if it already maps to a different
  existing Bucket, merge as above; always overwrite \<open>limit\<close>/\<open>remaining\<close>/\<open>resetAt\<close> with
  the freshest values''.
\<close>

definition reconcile :: "store \<Rightarrow> route_key \<Rightarrow> string \<Rightarrow> nat \<Rightarrow> int \<Rightarrow> time \<Rightarrow> store" where
  "reconcile st rk server_bucket_id l r reset_at =
     (let st1 = get_or_create st rk;
          cur = the (canonical st1 rk);
          new = Authoritative server_bucket_id;
          st2 =
            (if cur = new then st1
             else case records st1 new of
                    None \<Rightarrow>
                      st1\<lparr>canonical := redirect st1 cur new,
                          records := (records st1)(cur := None, new := records st1 cur)\<rparr>
                  | Some other \<Rightarrow>
                      st1\<lparr>canonical := redirect st1 cur new,
                          records := (records st1)(cur := None,
                            new := map_option (\<lambda>b. merge_buckets b other) (records st1 cur))\<rparr>)
      in st2\<lparr>records := (records st2)(new :=
               map_option (\<lambda>b. refresh b l r reset_at) (records st2 new))\<rparr>)"


text \<open>
  Modelled from the spec: a change of the Bucket record that a Route Key resolves to
  in the missing Bucket Store, through the indirection table (the queue and the \<open>inFlight\<close>
  flag of a Bucket are fields of its record); nothing changes when the Route Key has no
  Bucket.
\<close>

definition update_bucket :: "store \<Rightarrow> route_key \<Rightarrow> (bucket \<Rightarrow> bucket) \<Rightarrow> store" where
  "update_bucket st rk f =
     (case canonical st rk of
        None \<Rightarrow> st
      | Some i \<Rightarrow> st\<lparr>records := (records st)(i := map_option f (records st i))\<rparr>)"

text \<open>
  Modelled from the spec: the pending Requests of the Bucket with a given identity in the
  missing Bucket Store, in queue order; none when there is no such Bucket.
\<close>

definition queue_at :: "store \<Rightarrow> bucket_id \<Rightarrow> job list" where
  "queue_at st i = (case records st i of None \<Rightarrow> [] | Some b \<Rightarrow> queue b)"

text \<open>
  Modelled from the spec: the \<open>inFlight\<close> flag of the Bucket with a given identity in the
  missing Bucket Store; clear when there is no such Bucket.
\<close>

definition flag_at :: "store \<Rightarrow> bucket_id \<Rightarrow> bool" where
  "flag_at st i = (case records st i of None \<Rightarrow> False | Some b \<Rightarrow> inFlight b)"

text \<open>
  Modelled from the spec: whether the missing Bucket Store tracks a Bucket with a given
  identity (``another already-tracked bucket'').
\<close>

definition tracked :: "store \<Rightarrow> bucket_id \<Rightarrow> bool" where
  "tracked st i = (records st i \<noteq> None)"


section \<open>Response interpretation and retry policy\<close>

text \<open>
  Modelled from the spec: the response headers that the missing Response Interpreter
  consumes, ``rate-limit-limit, rate-limit-remaining, rate-limit-reset-after, rate-limit-bucket,
  rate-limit-is-global, retry-after''.
\<close>

record headers =
  rate_limit_limit :: nat
  rate_limit_remaining :: nat
  rate_limit_reset_after :: time
  rate_limit_bucket :: string
  rate_limit_is_global :: bool
  retry_after :: time

text \<open>
  Modelled from the spec: what the Transport Adapter hands to the missing Response
  Interpreter, ``\<open>{status, headers, body-bytes}\<close> or a transport error''.
\<close>

datatype response = TransportFailure | Response nat headers string

text \<open>
  Modelled from the spec: the errors a completion handle of the missing scheduler is
  rejected with, a network error (TransportError) or ``a structured HTTP error carrying
  status code and parsed error body''.
\<close>

datatype failure = TransportError | HTTPError nat jsval

text \<open>
  Modelled from the spec: the decision of the missing retry policy, ``a tagged outcome
  \<open>Retry(after_delay) | Fail(error) | Succeed(value)\<close>''.
\<close>

datatype outcome = Retry time | Fail failure | Succeed jsval

text \<open>
  Modelled from the spec: the parts of the missing scheduler that the specification
  leaves to configuration or to other components: the Route Key Resolver, the attempt
  ceiling, the ceiling of forced retries after a 429, the backoff schedule, the parsing of
  a body by payload kind, and the Global Limiter (\<open>acquire\<close> suspends, here \<open>None\<close>, until a
  slot is available; \<open>release\<close>; \<open>observe\<close> feeds it the headers of a response). The
  specification says that a rescheduled Request is Queued again (``\<open>RetryScheduled \<rightarrow> Queued\<close>'')
  but not at which place of its queue; \<open>reentry\<close> gives that place for a Request and the
  queue it re-enters, as the number of queued Requests that stay in front of it (0: it
  re-enters at the head; the length of the queue or more: at the tail).
\<close>

record 'g config =
  resolve :: "string \<Rightarrow> string \<Rightarrow> route_key"
  attempt_ceiling :: nat
  forced_ceiling :: nat
  backoff :: "nat \<Rightarrow> time"
  parse :: "string \<Rightarrow> string \<Rightarrow> jsval"
  reentry :: "job \<Rightarrow> job list \<Rightarrow> nat"
  acquire :: "time \<Rightarrow> 'g \<Rightarrow> 'g option"
  release :: "'g \<Rightarrow> 'g"
  observe :: "time \<Rightarrow> response \<Rightarrow> 'g \<Rightarrow> 'g"

text \<open>
  Modelled from the spec: the Route Key of a Request of the missing scheduler, which the
  Route Key Resolver computes from its verb and path.
\<close>

definition key_of :: "'g config \<Rightarrow> job \<Rightarrow> route_key" where
  "key_of cfg j = resolve cfg (verb (call j)) (url (call j))"

text \<open>
  Modelled from the spec: the five ordered cases of the missing Response Interpreter
  (transport failure; 429; 500 to 599; any other non-2xx status; 2xx).
\<close>

fun interpret_response :: "'g config \<Rightarrow> job \<Rightarrow> response \<Rightarrow> outcome" where
  "interpret_response cfg j TransportFailure =
     (if attempt j < attempt_ceiling cfg then Retry (backoff cfg (attempt j))
      else Fail TransportError)"
| "interpret_response cfg j (Response status h body) =
     (if status = 429 then
        (if forced j < forced_ceiling cfg then Retry (retry_after h) else Fail TransportError)
      else if 500 \<le> status \<and> status \<le> 599 then
        (if attempt j < attempt_ceiling cfg then Retry (backoff cfg (attempt j))
         else Fail (HTTPError status (parse cfg ''json'' body)))
      else if 200 \<le> status \<and> status \<le> 299 then
        Succeed (parse cfg (dataKind (call j)) body)
      else Fail (HTTPError status (parse cfg ''json'' body)))"

text \<open>
  Modelled from the spec: the update of the Bucket of the answered Request by the missing
  Response Interpreter on a per-bucket 429, ``update Bucket/Global state to
  \<open>remaining=0\<close>, \<open>resetAt=now+RetryAfter\<close>''.
\<close>

fun throttled :: "time \<Rightarrow> response \<Rightarrow> bucket \<Rightarrow> bucket" where
  "throttled t TransportFailure b = b"
| "throttled t (Response status h body) b =
     (if status = 429 \<and> \<not> rate_limit_is_global h
      then b\<lparr>b_remaining := Some 0, b_resetAt := t + retry_after h\<rparr> else b)"

text \<open>
  Modelled from the spec: the last bookkeeping step of the missing Response Interpreter,
  ``after every branch, feed the response's rate-limit headers into
  \<open>Bucket Store.reconcile(...)\<close>''; the window resets \<open>rate-limit-reset-after\<close> after the
  current time. A transport failure carries no headers.
\<close>

fun reconciled :: "time \<Rightarrow> response \<Rightarrow> route_key \<Rightarrow> store \<Rightarrow> store" where
  "reconciled t TransportFailure rk st = st"
| "reconciled t (Response status h body) rk st =
     reconcile st rk (rate_limit_bucket h) (rate_limit_limit h) (int (rate_limit_remaining h))
       (t + rate_limit_reset_after h)"

text \<open>
  Modelled from the spec: the Request as the missing scheduler reschedules it, ``the same
  Request to redispatch after that delay''; a 429 ``does not consume a user-visible retry
  budget'', every other retry advances the attempt counter.
\<close>

fun rescheduled :: "time \<Rightarrow> response \<Rightarrow> time \<Rightarrow> job \<Rightarrow> job" where
  "rescheduled t TransportFailure d j = j\<lparr>attempt := Suc (attempt j), notBefore := t + d\<rparr>"
| "rescheduled t (Response status h body) d j =
     (if status = 429 then j\<lparr>forced := Suc (forced j), notBefore := t + d\<rparr>
      else j\<lparr>attempt := Suc (attempt j), notBefore := t + d\<rparr>)"

text \<open>
  Modelled from the spec: the queue of the missing Bucket Queue after a rescheduled
  Request has re-entered it with \<open>n\<close> Requests in front of it.
\<close>

definition requeue :: "nat \<Rightarrow> job \<Rightarrow> job list \<Rightarrow> job list" where
  "requeue n j q = take n q @ j # drop n q"


section \<open>Bucket Queue and Scheduler\<close>

text \<open>
  Modelled from the spec: how the completion handle of a Request of the missing scheduler
  is settled, with the parsed value or with an error.
\<close>

datatype settlement = Resolved jsval | Rejected failure

text \<open>
  Modelled from the spec: the state of the missing scheduler. The Bucket Store holds the
  Bucket records with their Bucket Queues; a dispatched Request is owned ``by the
  in-flight dispatch operation'' (\<open>flights\<close>, each with the Route Key of its Request). The
  logs \<open>submitted\<close>, \<open>settled\<close> and \<open>abandoned\<close> record, in order, the calls of \<open>request\<close>,
  the completion handles settled and the Requests abandoned by their callers.
\<close>

record 'g scheduler =
  now :: time
  bucket_store :: store
  flights :: "(route_key \<times> job) list"
  global :: 'g
  next_jid :: nat
  submitted :: "(route_key \<times> nat) list"
  settled :: "(route_key \<times> nat \<times> settlement) list"
  abandoned :: "nat list"

text \<open>
  Modelled from the spec: the missing scheduler at process start, ``the Bucket Store is
  purely in-memory and rebuilds from scratch each process start''; \<open>g\<close> is the initial
  state of the Global Limiter.
\<close>

definition initial :: "'g \<Rightarrow> 'g scheduler" where
  "initial g = \<lparr>now = 0, bucket_store = \<lparr>canonical = (\<lambda>k. None), records = (\<lambda>i. None)\<rparr>,
                flights = [], global = g, next_jid = 0,
                submitted = [], settled = [], abandoned = []\<rparr>"

text \<open>
  Modelled from the spec: the entry point \<open>request(route, verb, dataKind, payload)\<close> of
  the missing scheduler up to the first suspension: resolve the Route Key, look its Bucket
  up with \<open>get_or_create\<close> (``created lazily on first use of a Route Key''), create the
  Request and \<open>enqueue\<close> it at the tail.
\<close>

definition submit :: "'g config \<Rightarrow> 'g scheduler \<Rightarrow> request_call \<Rightarrow> 'g scheduler" where
  "submit cfg s c =
     (let rk = resolve cfg (verb c) (url c);
          j = \<lparr>jid = next_jid s, call = c, attempt = 0, forced = 0, notBefore = 0\<rparr>
      in s\<lparr>bucket_store := update_bucket (get_or_create (bucket_store s) rk) rk
                               (\<lambda>b. b\<lparr>queue := queue b @ [j]\<rparr>),
            next_jid := Suc (next_jid s),
            submitted := submitted s @ [(rk, next_jid s)]\<rparr>)"

text \<open>
  Modelled from the spec: the test \<open>remaining>0\<close> of the missing Bucket Queue; ``values
  \<open>\<le>\<close>0 block admission'', an unknown \<open>remaining\<close> does not.
\<close>

definition remaining_positive :: "bucket \<Rightarrow> bool" where
  "remaining_positive b = (case b_remaining b of None \<Rightarrow> True | Some r \<Rightarrow> 0 < r)"

text \<open>
  Modelled from the spec: the admission rule of the missing Bucket Queue, ``a Request may
  dispatch only when \<open>inFlight=false\<close> AND (\<open>remaining>0\<close> OR current time \<open>\<ge>\<close> \<open>resetAt\<close>)''.
\<close>

definition admits :: "time \<Rightarrow> bucket \<Rightarrow> bool" where
  "admits t b = (\<not> inFlight b \<and> (remaining_positive b \<or> b_resetAt b \<le> t))"

text \<open>
  Modelled from the spec: the dispatch of the head of the Bucket Queue of the Bucket that
  a Route Key resolves to, by the missing scheduler. The head goes when the Bucket admits
  it, its own delay is over and the Global Limiter grants a slot; ``on dispatch,
  \<open>inFlight:=true\<close>''. A head that waited for \<open>resetAt\<close> ``optimistically treats the window
  as refreshed (\<open>remaining\<close> unknown until the next response)''. \<open>None\<close>: the head stays
  suspended.
\<close>

definition dispatch :: "'g config \<Rightarrow> 'g scheduler \<Rightarrow> route_key \<Rightarrow> 'g scheduler option" where
  "dispatch cfg s rk =
     (case bucket_of (bucket_store s) rk of
        None \<Rightarrow> None
      | Some b \<Rightarrow>
          (case queue b of
             [] \<Rightarrow> None
           | j # rest \<Rightarrow>
               if admits (now s) b \<and> notBefore j \<le> now s then
                 (case acquire cfg (now s) (global s) of
                    None \<Rightarrow> None
                  | Some g \<Rightarrow>
                      Some (s\<lparr>bucket_store := update_bucket (bucket_store s) rk
                                 (\<lambda>b. b\<lparr>queue := rest, inFlight := True,
                                        b_remaining :=
                                          (if remaining_positive b then b_remaining b else None)\<rparr>),
                               flights := flights s @ [(key_of cfg j, j)],
                               global := g\<rparr>))
               else None))"

text \<open>
  Modelled from the spec: the queue of the Bucket of an answered Request after the branch
  of the outcome in the missing Response Interpreter: a Request to retry is rescheduled
  and becomes Queued again (``\<open>RetryScheduled \<rightarrow> Queued\<close>''), at the place \<open>reentry\<close> gives;
  the queue stays as it is when the Request is settled.
\<close>

definition requeued :: "'g config \<Rightarrow> time \<Rightarrow> response \<Rightarrow> job \<Rightarrow> job list \<Rightarrow> job list" where
  "requeued cfg t resp j q =
     (case interpret_response cfg j resp of
        Retry d \<Rightarrow> requeue (reentry cfg (rescheduled t resp d j) q) (rescheduled t resp d j) q
      | Fail e \<Rightarrow> q
      | Succeed v \<Rightarrow> q)"

text \<open>
  Modelled from the spec: the completion handles that the branch of the outcome settles
  in the missing Response Interpreter, none for a Request to retry, else the handle of the
  Request, rejected with the error or resolved with the parsed value.
\<close>

definition settlements ::
  "'g config \<Rightarrow> route_key \<Rightarrow> job \<Rightarrow> response \<Rightarrow> (route_key \<times> nat \<times> settlement) list" where
  "settlements cfg rk j resp =
     (case interpret_response cfg j resp of
        Retry d \<Rightarrow> []
      | Fail e \<Rightarrow> [(rk, jid j, Rejected e)]
      | Succeed v \<Rightarrow> [(rk, jid j, Resolved v)])"

text \<open>
  Modelled from the spec: the identity of the Bucket of an answered Request after the
  response has been fed to \<open>reconcile\<close>, the server-issued bucket id of the response; a
  transport failure leaves the identity as it is.
\<close>

fun target :: "response \<Rightarrow> bucket_id \<Rightarrow> bucket_id" where
  "target TransportFailure cur = cur"
| "target (Response status h body) cur = Authoritative (rate_limit_bucket h)"

text \<open>
  Modelled from the spec: the processing of a response (or transport failure) for an
  in-flight Request, named by its completion handle, by the missing scheduler, in the
  order of the specification. The branch of the outcome comes first: on a per-bucket 429
  the Bucket is updated, a Request to retry is rescheduled and becomes Queued again in
  the queue of its Bucket, any other Request has its completion handle settled. Then,
  ``after every branch, feed the response's rate-limit headers into
  \<open>Bucket Store.reconcile(...)\<close> and into the Global Limiter state''. ``Finally, clear the
  Bucket's \<open>inFlight\<close> flag and release the Global Limiter slot''; the Bucket is the one
  that the Route Key of the Request resolves to, after \<open>reconcile\<close> the promoted or merged
  one. \<open>None\<close>: no such Request is in flight.
\<close>

definition respond ::
  "'g config \<Rightarrow> 'g scheduler \<Rightarrow> nat \<Rightarrow> response \<Rightarrow> 'g scheduler option" where
  "respond cfg s i resp =
     (case find (\<lambda>f. jid (snd f) = i) (flights s) of
        None \<Rightarrow> None
      | Some f \<Rightarrow>
          (let rk = fst f; j = snd f;
               st1 = update_bucket (bucket_store s) rk
                       (\<lambda>b. (throttled (now s) resp b)
                               \<lparr>queue := requeued cfg (now s) resp j (queue b)\<rparr>);
               st2 = reconciled (now s) resp rk st1
           in Some (s\<lparr>bucket_store := update_bucket st2 rk (\<lambda>b. b\<lparr>inFlight := False\<rparr>),
                      flights := remove1 f (flights s),
                      global := release cfg (observe cfg (now s) resp (global s)),
                      settled := settled s @ settlements cfg rk j resp\<rparr>)))"

text \<open>
  Modelled from the spec: cancellation in the missing scheduler, ``if still queued, it is
  removed without side effects; if already dispatched, the in-flight network call is
  allowed to complete''. The caller names the Route Key of the Request and its
  completion handle.
\<close>

definition cancel :: "'g scheduler \<Rightarrow> route_key \<Rightarrow> nat \<Rightarrow> 'g scheduler" where
  "cancel s rk i =
     (case bucket_of (bucket_store s) rk of
        None \<Rightarrow> s
      | Some b \<Rightarrow>
          if i \<in> set (map jid (queue b))
          then s\<lparr>bucket_store := update_bucket (bucket_store s) rk
                                    (\<lambda>b. b\<lparr>queue := filter (\<lambda>j. jid j \<noteq> i) (queue b)\<rparr>),
                 abandoned := i # abandoned s\<rparr>
          else s)"

text \<open>
  Modelled from the spec: what can happen to the missing scheduler, one event at a time:
  a caller submits a call or abandons a Request, the Bucket Queue of the Bucket of a Route
  Key dispatches its head, the transport answers an in-flight Request, time passes.
\<close>

datatype event =
    Submit request_call
  | Dispatch route_key
  | Respond nat response
  | Cancel route_key nat
  | Tick time

text \<open>
  Modelled from the spec: one event of the missing scheduler; \<open>None\<close> when the event
  cannot happen in the state (a suspended head, no such Request in flight).
\<close>

fun step :: "'g config \<Rightarrow> 'g scheduler \<Rightarrow> event \<Rightarrow> 'g scheduler option" where
  "step cfg s (Submit c) = Some (submit cfg s c)"
| "step cfg s (Dispatch rk) = dispatch cfg s rk"
| "step cfg s (Respond i resp) = respond cfg s i resp"
| "step cfg s (Cancel rk i) = Some (cancel s rk i)"
| "step cfg s (Tick d) = Some (s\<lparr>now := now s + d\<rparr>)"

text \<open>
  Modelled from the spec: a sequence of events of the missing scheduler, in any
  interleaving of callers, Bucket Queues and transport.
\<close>

fun steps :: "'g config \<Rightarrow> 'g scheduler \<Rightarrow> event list \<Rightarrow> 'g scheduler option" where
  "steps cfg s [] = Some s"
| "steps cfg s (e # es) = (case step cfg s e of None \<Rightarrow> None | Some s' \<Rightarrow> steps cfg s' es)"

text \<open>
  Modelled from the spec: the states the missing scheduler can be in, started with a
  Global Limiter in state \<open>g\<close>.
\<close>

inductive reachable :: "'g config \<Rightarrow> 'g \<Rightarrow> 'g scheduler \<Rightarrow> bool" for cfg g where
  at_start: "reachable cfg g (initial g)"
| after_step: "reachable cfg g s \<Longrightarrow> step cfg s e = Some s' \<Longrightarrow> reachable cfg g s'"






text \<open>
  Modelled from the spec: the pending Requests of a Bucket of the missing scheduler, in
  queue order.
\<close>

definition queued :: "'g scheduler \<Rightarrow> bucket_id \<Rightarrow> job list" where
  "queued s b = queue_at (bucket_store s) b"

text \<open>
  Modelled from the spec: the \<open>inFlight\<close> flag of a Bucket of the missing scheduler.
\<close>

definition flagged :: "'g scheduler \<Rightarrow> bucket_id \<Rightarrow> bool" where
  "flagged s b = flag_at (bucket_store s) b"







section \<open>Invariants and example runs of the scheduler\<close>

text \<open>
  Modelled from the spec: the Bucket Store of the missing scheduler is well formed. Every
  Route Key in the indirection table resolves to a Bucket record; a record with a
  provisional identity is the Bucket of the Route Key it is named after; every Request in
  flight or queued, and every Request in the logs, has a Route Key that resolves to a
  Bucket, a queued one to the Bucket whose queue holds it.
\<close>

definition well_formed :: "'g config \<Rightarrow> 'g scheduler \<Rightarrow> bool" where
  "well_formed cfg s \<longleftrightarrow>
     (\<forall>k i. canonical (bucket_store s) k = Some i \<longrightarrow> tracked (bucket_store s) i) \<and>
     (\<forall>k. tracked (bucket_store s) (Provisional k) \<longrightarrow>
          canonical (bucket_store s) k = Some (Provisional k)) \<and>
     (\<forall>f \<in> set (flights s).
        fst f = key_of cfg (snd f) \<and> (\<exists>b. canonical (bucket_store s) (fst f) = Some b)) \<and>
     (\<forall>b. \<forall>j \<in> set (queued s b). canonical (bucket_store s) (key_of cfg j) = Some b) \<and>
     (\<forall>e \<in> set (submitted s). \<exists>b. canonical (bucket_store s) (fst e) = Some b) \<and>
     (\<forall>e \<in> set (settled s). \<exists>b. canonical (bucket_store s) (fst e) = Some b)"

text \<open>
  Modelled from the spec: a Request of the missing scheduler is in one place, ``owned
  exclusively by the Bucket Queue it is enqueued into until dispatched, then by the
  in-flight dispatch operation'', and its completion handle is ``resolved/rejected exactly
  once'': the handles settled, those of the Requests in flight and those of the Requests
  in the queues are pairwise different, and all are below \<open>next_jid\<close>.
\<close>

definition owned_once :: "'g scheduler \<Rightarrow> bool" where
  "owned_once s \<longleftrightarrow>
     distinct (map (\<lambda>e. fst (snd e)) (settled s)) \<and>
     distinct (map (\<lambda>f. jid (snd f)) (flights s)) \<and>
     (\<forall>e \<in> set (settled s). \<forall>f \<in> set (flights s). fst (snd e) \<noteq> jid (snd f)) \<and>
     (\<forall>b. distinct (map jid (queued s b))) \<and>
     (\<forall>b. \<forall>j \<in> set (queued s b).
        (\<forall>e \<in> set (settled s). fst (snd e) \<noteq> jid j) \<and>
        (\<forall>f \<in> set (flights s). jid (snd f) \<noteq> jid j) \<and>
        (\<forall>b'. \<forall>j' \<in> set (queued s b'). jid j' = jid j \<longrightarrow> b' = b)) \<and>
     (\<forall>e \<in> set (settled s). fst (snd e) < next_jid s) \<and>
     (\<forall>f \<in> set (flights s). jid (snd f) < next_jid s) \<and>
     (\<forall>b. \<forall>j \<in> set (queued s b). jid j < next_jid s)"




text \<open>
  Modelled from the spec: a configuration of the missing scheduler for running examples,
  with the bounds the design notes name as defaults (3 backoff attempts, 2 forced
  retries), a resolver that keeps verb and path, a parser that keeps the body text, a
  Global Limiter that always grants a slot, and rescheduled Requests that re-enter their
  queue at the head.
\<close>

definition example_config :: "unit config" where
  "example_config =
     \<lparr>resolve = RouteKey, attempt_ceiling = 3, forced_ceiling = 2,
      backoff = (\<lambda>n. 1000 * 2 ^ n), parse = (\<lambda>kind body. JStr body),
      reentry = (\<lambda>j q. 0),
      acquire = (\<lambda>t g. Some g), release = (\<lambda>g. g), observe = (\<lambda>t resp g. g)\<rparr>"


text \<open>An example call of \<open>request\<close>: verb and route, data kind json, no payload.\<close>

definition example_call :: "string \<Rightarrow> string \<Rightarrow> request_call" where
  "example_call v u = \<lparr>url = u, verb = v, dataKind = ''json'', payload = JUndefined\<rparr>"

text \<open>
  Example rate-limit headers: 4 of 5 requests left in a window of one second of the
  Bucket with the given id.
\<close>

definition example_headers :: "string \<Rightarrow> headers" where
  "example_headers sid =
     \<lparr>rate_limit_limit = 5, rate_limit_remaining = 4, rate_limit_reset_after = 1000,
      rate_limit_bucket = sid, rate_limit_is_global = False, retry_after = 0\<rparr>"


text \<open>The Route Key of the example lookup of a ban.\<close>

definition guild_ban :: route_key where
  "guild_ban = RouteKey ''get'' ''/guilds/1/bans/9''"

text \<open>The example calls on these two routes.\<close>

definition delete_role :: event where
  "delete_role = Submit (example_call ''delete'' ''/guilds/1/members/2/roles/3'')"

definition get_ban :: event where
  "get_ban = Submit (example_call ''get'' ''/guilds/1/bans/9'')"

text \<open>The state of a scheduler after a list of events, from process start.\<close>

definition state_after :: "unit config \<Rightarrow> event list \<Rightarrow> unit scheduler" where
  "state_after cfg es = the (steps cfg (initial ()) es)"


text \<open>Two deletes waiting in the queue of the member-role route.\<close>

definition two_queued :: "event list" where
  "two_queued = [delete_role, delete_role]"






text \<open>A ban lookup in flight.\<close>

definition ban_lookup :: "event list" where
  "ban_lookup = [get_ban, Dispatch guild_ban]"

text \<open>The response ``404 Unknown Ban'' to the lookup.\<close>

definition unknown_ban :: response where
  "unknown_ban = Response 404 (example_headers ''bans'') ''{code: 10026, message: Unknown Ban}''"



section \<open>Properties of the endpoint wrappers\<close>

lemmas run_defs = request_def return_sync_def return_async_def throw_async_def Let_def

lemmas wrapper_defs = getGateway_def getGatewayBot_def getOAuthApplication_def getInvite_def
  deleteInvite_def getEmojis_def getEmoji_def createEmoji_def updateEmoji_def deleteEmoji_def
  getSticker_def getGuildStickers_def getGuildSticker_def createGuildSticker_def
  updateGuildSticker_def deleteGuildSticker_def getGuildTemplate_def
  createGuildFromGuildTemplate_def getGuildTemplates_def createGuildTemplate_def
  syncGuildTemplate_def modifyGuildTemplate_def deleteGuildTemplate_def getAuditLog_def
  createGuild_def getGuild_def getGuildPreview_def updateGuild_def deleteGuild_def
  getGuildChannels_def createGuildChannel_def updateChannelPositions_def listActiveThreads_def
  getGuildMember_def getGuildMembers_def searchGuildMembers_def addGuildMember_def
  updateGuildMember_def updateSelf_def addGuildMemberRole_def removeGuildMemberRole_def
  removeGuildMember_def getGuildBans_def getGuildBan_def createGuildBan_def removeGuildBan_def
  getGuildRoles_def createGuildRole_def updateGuildRolePositions_def updateGuildRole_def
  removeGuildRole_def getGuildPruneCount_def startGuildPrune_def getGuildVoiceRegions_def
  getGuildInvites_def getGuildIntegrations_def removeGuildIntegration_def
  getGuildWidgetSettings_def updateGuildWidgetSettings_def getGuildWidget_def
  getGuildVanityURL_def getGuildWelcomeScreen_def editGuildWelcomeScreen_def
  updateCurrentUserVoiceState_def updateUserVoiceState_def

lemma js_lt_NaN: "js_lt a NaN = False"
  by (cases a) simp_all

lemma join_empty: "join [] xs = concat xs"
  by (induction "[]::string" xs rule: join.induct) simp_all

lemma join_Cons: "join sep (x # xs) = x @ concat (map (\<lambda>y. sep @ y) xs)"
  by (induction xs arbitrary: x) simp_all

lemma later_fragments:
  "0 < n \<Longrightarrow>
   map (\<lambda>(index, v). (if index = 0 then a else b) @ h v) (zip [n ..< n + length ks] ks) =
   map (\<lambda>v. b @ h v) ks"
proof (induction ks arbitrary: n)
  case Nil
  then show ?case by simp
next
  case (Cons k ks)
  have "[n ..< n + length (k # ks)] = n # [Suc n ..< Suc n + length ks]"
    by (simp add: upt_conv_Cons del: upt_Suc)
  moreover have "map (\<lambda>(index, v). (if index = 0 then a else b) @ h v)
                 (zip [Suc n ..< Suc n + length ks] ks) = map (\<lambda>v. b @ h v) ks"
    by (rule Cons.IH) simp
  ultimately show ?case using Cons.prems by (simp del: upt_Suc)
qed

lemma query_fragments_Cons:
  "query_fragments env (kv # kvs) =
     (''?'' @ fst kv @ ''='' @ ToString (Number_toString env) (get_prop (kv # kvs) (fst kv))) #
     map (\<lambda>v. ''&'' @ v @ ''='' @ ToString (Number_toString env) (get_prop (kv # kvs) v))
         (map fst kvs)"
proof -
  have "[0 ..< length (Object_keys (kv # kvs))] = 0 # [Suc 0 ..< Suc 0 + length (map fst kvs)]"
    by (simp add: upt_conv_Cons Object_keys_def del: upt_Suc)
  then show ?thesis
    using later_fragments [of "Suc 0" "''?''" "''&''"
        "\<lambda>v. v @ ''='' @ ToString (Number_toString env) (get_prop (kv # kvs) v)" "map fst kvs"]
    by (simp add: query_fragments_def Object_keys_def del: upt_Suc)
qed


text \<open>
  C10. \<open>getOAuthApplication\<close> makes one call, with verb \<open>get\<close> and data kind \<open>json\<close>, to
  the OAuth application route: the route for \<open>@me\<close> when \<open>appID\<close> is undefined or the empty
  string, the route for \<open>appID\<close> otherwise.
\<close>

theorem getOAuthApplication_route:
  "dispatched (getOAuthApplication env rh appID) =
     Some \<lparr>url = Endpoints env OAUTH2_APPLICATION
                   [if appID = None \<or> appID = Some [] then ''@me'' else the appID],
           verb = ''get'', dataKind = ''json'', payload = JUndefined\<rparr>"
  by (cases appID) (simp_all add: getOAuthApplication_def run_defs dispatched_def truthy_string_def)

text \<open>
  C9. Each delete-style wrapper with an optional reason makes one call with the verb
  \<open>delete\<close>, whose payload is \<open>{ reason }\<close> when the reason is a non-empty string and
  \<open>undefined\<close> when the reason is undefined or the empty string.
\<close>

theorem reason_payload_only_when_nonempty:
  "map_option (\<lambda>c. (verb c, payload c))
     (dispatched (removeGuildMemberRole env rh guildId memberId roleId reason)) =
     Some (''delete'', if reason = None \<or> reason = Some [] then JUndefined
                      else JObj [(''reason'', JStr (the reason))])
   \<and> map_option (\<lambda>c. (verb c, payload c)) (dispatched (removeGuildMember env rh guildId memberId reason)) =
     Some (''delete'', if reason = None \<or> reason = Some [] then JUndefined
                      else JObj [(''reason'', JStr (the reason))])
   \<and> map_option (\<lambda>c. (verb c, payload c)) (dispatched (removeGuildBan env rh guildId memberId reason)) =
     Some (''delete'', if reason = None \<or> reason = Some [] then JUndefined
                      else JObj [(''reason'', JStr (the reason))])
   \<and> map_option (\<lambda>c. (verb c, payload c)) (dispatched (removeGuildRole env rh guildId roleId reason)) =
     Some (''delete'', if reason = None \<or> reason = Some [] then JUndefined
                      else JObj [(''reason'', JStr (the reason))])
   \<and> map_option (\<lambda>c. (verb c, payload c))
       (dispatched (removeGuildIntegration env rh guildId integrationId reason)) =
     Some (''delete'', if reason = None \<or> reason = Some [] then JUndefined
                      else JObj [(''reason'', JStr (the reason))])
   \<and> map_option (\<lambda>c. (verb c, payload c)) (dispatched (deleteEmoji env rh guildId emojiId reason)) =
     Some (''delete'', if reason = None \<or> reason = Some [] then JUndefined
                      else JObj [(''reason'', JStr (the reason))])
   \<and> map_option (\<lambda>c. (verb c, payload c)) (dispatched (deleteGuildSticker env rh guildId stickerId reason)) =
     Some (''delete'', if reason = None \<or> reason = Some [] then JUndefined
                      else JObj [(''reason'', JStr (the reason))])"
  by (cases reason)
     (simp_all add: removeGuildMemberRole_def removeGuildMember_def removeGuildBan_def
        removeGuildRole_def removeGuildIntegration_def deleteEmoji_def deleteGuildSticker_def
        run_defs dispatched_def reason_payload_def truthy_string_def)

text \<open>
  C8. With two or more keys in the options, \<open>getGuildBans\<close> puts a comma before every
  fragment after the first (the array of fragments is interpolated as it is), whereas
  \<open>getInvite\<close> and \<open>getGuildPruneCount\<close> join the same fragments with the empty string.
\<close>

theorem getGuildBans_fragments_not_joined:
  "map_option url (dispatched (getGuildBans env rh guildId (Some (p1 # p2 # ps)))) =
     Some (Endpoints env GUILD_BANS [guildId] @
           ''?'' @ fst p1 @ ''='' @
             ToString (Number_toString env) (get_prop (p1 # p2 # ps) (fst p1)) @
           concat (map (\<lambda>v. '',&'' @ v @ ''='' @
                         ToString (Number_toString env) (get_prop (p1 # p2 # ps) v))
                       (map fst (p2 # ps))))
   \<and> map_option url (dispatched (getInvite env rh inviteId (Some (p1 # p2 # ps)))) =
     Some (Endpoints env INVITES [inviteId] @
           ''?'' @ fst p1 @ ''='' @
             ToString (Number_toString env) (get_prop (p1 # p2 # ps) (fst p1)) @
           concat (map (\<lambda>v. ''&'' @ v @ ''='' @
                         ToString (Number_toString env) (get_prop (p1 # p2 # ps) v))
                       (map fst (p2 # ps))))
   \<and> map_option url (dispatched (getGuildPruneCount env rh guildId (Some (p1 # p2 # ps)))) =
     Some (Endpoints env GUILD_PRUNE [guildId] @
           ''?'' @ fst p1 @ ''='' @
             ToString (Number_toString env) (get_prop (p1 # p2 # ps) (fst p1)) @
           concat (map (\<lambda>v. ''&'' @ v @ ''='' @
                         ToString (Number_toString env) (get_prop (p1 # p2 # ps) v))
                       (map fst (p2 # ps))))"
proof -
  have bans: "join '','' (query_fragments env (p1 # p2 # ps)) =
      ''?'' @ fst p1 @ ''='' @ ToString (Number_toString env) (get_prop (p1 # p2 # ps) (fst p1)) @
      concat (map (\<lambda>v. '',&'' @ v @ ''='' @
                    ToString (Number_toString env) (get_prop (p1 # p2 # ps) v))
                  (map fst (p2 # ps)))"
    unfolding query_fragments_Cons join_Cons by (simp add: comp_def)
  have joined: "join [] (query_fragments env (p1 # p2 # ps)) =
      ''?'' @ fst p1 @ ''='' @ ToString (Number_toString env) (get_prop (p1 # p2 # ps) (fst p1)) @
      concat (map (\<lambda>v. ''&'' @ v @ ''='' @
                    ToString (Number_toString env) (get_prop (p1 # p2 # ps) v))
                  (map fst (p2 # ps)))"
    unfolding query_fragments_Cons join_Cons by (simp add: comp_def)
  have "map_option url (dispatched (getGuildBans env rh guildId (Some (p1 # p2 # ps)))) =
        Some (Endpoints env GUILD_BANS [guildId] @ join '','' (query_fragments env (p1 # p2 # ps)))"
    by (simp add: getGuildBans_def run_defs dispatched_def comp_def)
  moreover have "map_option url (dispatched (getInvite env rh inviteId (Some (p1 # p2 # ps)))) =
        Some (Endpoints env INVITES [inviteId] @ join [] (query_fragments env (p1 # p2 # ps)))"
    by (simp add: getInvite_def run_defs dispatched_def)
  moreover have "map_option url (dispatched (getGuildPruneCount env rh guildId (Some (p1 # p2 # ps)))) =
        Some (Endpoints env GUILD_PRUNE [guildId] @ join [] (query_fragments env (p1 # p2 # ps)))"
    by (simp add: getGuildPruneCount_def run_defs dispatched_def)
  ultimately show ?thesis
    unfolding bans joined by simp
qed

text \<open>The example of the claim, the options \<open>{ limit: 1, before: "2" }\<close>.\<close>

lemma getGuildBans_example:
  "map_option url (dispatched (getGuildBans example_env (\<lambda>c. ()) ''7''
      (Some [(''limit'', JNum (Finite 1)), (''before'', JStr ''2'')]))) =
   Some ''/7?limit=1,&before=2''"
  by (simp add: getGuildBans_def run_defs dispatched_def query_fragments_def Object_keys_def
      get_prop_def example_env_def)

text \<open>
  C1 (as amended). With finite bounds \<open>lo\<close> and \<open>hi\<close> in \<open>Constants\<close>:
  a \<open>searchGuildMembers\<close> call whose limit is a number below \<open>lo\<close> or above \<open>hi\<close> makes no
  dispatcher call and returns a promise rejected with the \<open>RangeError\<close>; a call whose
  limit is undefined or lies in the closed interval makes exactly one dispatcher call,
  with the options object as the payload, and resolves with its result.
\<close>

theorem searchGuildMembers_range_check:
  assumes "SEARCH_MEMBERS_MIN_RESULTS env = Finite lo"
    and "SEARCH_MEMBERS_MAX_RESULTS env = Finite hi"
  shows "((get_prop options ''limit'' = JNum (Finite x) \<and> (x < lo \<or> hi < x))
          \<or> get_prop options ''limit'' = JNum PosInfinity
          \<or> get_prop options ''limit'' = JNum NegInfinity \<longrightarrow>
            searchGuildMembers env rh guildId options =
              \<lparr>trace = [], completion = AsyncRejected (RangeError (search_limit_message env))\<rparr>)
       \<and> (get_prop options ''limit'' = JUndefined
          \<or> (get_prop options ''limit'' = JNum (Finite x) \<and> lo \<le> x \<and> x \<le> hi) \<longrightarrow>
            searchGuildMembers env rh guildId options =
              \<lparr>trace = [\<lparr>url = Endpoints env GUILD_MEMBERS_SEARCH [guildId], verb = ''get'',
                         dataKind = ''json'', payload = JObj options\<rparr>],
               completion = AsyncResolved
                 (rh \<lparr>url = Endpoints env GUILD_MEMBERS_SEARCH [guildId], verb = ''get'',
                      dataKind = ''json'', payload = JObj options\<rparr>)\<rparr>)"
  using assms by (auto simp add: searchGuildMembers_def run_defs js_gt_def)

theorem searchGuildMembers_range_check_witness:
  "SEARCH_MEMBERS_MIN_RESULTS example_env = Finite 1
   \<and> SEARCH_MEMBERS_MAX_RESULTS example_env = Finite 1000
   \<and> get_prop [(''query'', JStr ''Wolke''), (''limit'', JNum (Finite 0))] ''limit'' = JNum (Finite 0)
   \<and> (0::rat) < 1
   \<and> searchGuildMembers example_env (\<lambda>c. ()) ''7''
         [(''query'', JStr ''Wolke''), (''limit'', JNum (Finite 0))] =
       \<lparr>trace = [], completion = AsyncRejected (RangeError
          ''Limit for searching guild members has to be between 1 and 1000'')\<rparr>
   \<and> get_prop [(''query'', JStr ''Wolke'')] ''limit'' = JUndefined
   \<and> trace (searchGuildMembers example_env (\<lambda>c. ()) ''7'' [(''query'', JStr ''Wolke'')]) =
       [\<lparr>url = ''/7'', verb = ''get'', dataKind = ''json'',
         payload = JObj [(''query'', JStr ''Wolke'')]\<rparr>]"
proof -
  have lo: "SEARCH_MEMBERS_MIN_RESULTS example_env = Finite 1"
    and hi: "SEARCH_MEMBERS_MAX_RESULTS example_env = Finite 1000"
    by (simp_all add: example_env_def)
  have l0: "get_prop [(''query'', JStr ''Wolke''), (''limit'', JNum (Finite 0))] ''limit'' =
      JNum (Finite 0)"
    and l1: "get_prop [(''query'', JStr ''Wolke'')] ''limit'' = JUndefined"
    by (simp_all add: get_prop_def)
  from searchGuildMembers_range_check [OF lo hi,
      of "[(''query'', JStr ''Wolke''), (''limit'', JNum (Finite 0))]" 0 "\<lambda>c. ()" "''7''"] l0
  have "searchGuildMembers example_env (\<lambda>c. ()) ''7''
         [(''query'', JStr ''Wolke''), (''limit'', JNum (Finite 0))] =
       \<lparr>trace = [], completion = AsyncRejected (RangeError
          ''Limit for searching guild members has to be between 1 and 1000'')\<rparr>"
    by (simp add: search_limit_message_def example_env_def)
  moreover from searchGuildMembers_range_check [OF lo hi, of "[(''query'', JStr ''Wolke'')]" 0
      "\<lambda>c. ()" "''7''"] l1
  have "trace (searchGuildMembers example_env (\<lambda>c. ()) ''7'' [(''query'', JStr ''Wolke'')]) =
       [\<lparr>url = ''/7'', verb = ''get'', dataKind = ''json'',
         payload = JObj [(''query'', JStr ''Wolke'')]\<rparr>]"
    by (simp add: example_env_def)
  ultimately show ?thesis using lo hi l0 l1 by simp
qed

text \<open>
  C1 as stated fails: \<open>searchGuildMembers\<close> is \<open>async\<close>, so for a limit of 0 (bounds 1 and
  1000) no exception reaches the caller; the error rejects the returned promise.
\<close>

theorem searchGuildMembers_throw_counterexample:
  "\<not> threw (searchGuildMembers example_env (\<lambda>c. ()) ''7''
             [(''query'', JStr ''Wolke''), (''limit'', JNum (Finite 0))])
   \<and> completion (searchGuildMembers example_env (\<lambda>c. ()) ''7''
                   [(''query'', JStr ''Wolke''), (''limit'', JNum (Finite 0))]) =
       AsyncRejected (RangeError
         ''Limit for searching guild members has to be between 1 and 1000'')"
  by (simp add: threw_def searchGuildMembers_def run_defs js_gt_def example_env_def
      search_limit_message_def get_prop_def)

text \<open>
  A limit of \<open>NaN\<close> is neither below the minimum nor above the maximum for the
  comparisons of the check, so the call is dispatched.
\<close>

lemma searchGuildMembers_NaN_limit:
  "trace (searchGuildMembers env rh guildId [(''query'', JStr q), (''limit'', JNum NaN)]) =
     [\<lparr>url = Endpoints env GUILD_MEMBERS_SEARCH [guildId], verb = ''get'', dataKind = ''json'',
       payload = JObj [(''query'', JStr q), (''limit'', JNum NaN)]\<rparr>]"
  by (simp add: searchGuildMembers_def run_defs js_gt_def js_lt_NaN get_prop_def)

text \<open>
  C2 (as amended). Every wrapper call, except a \<open>searchGuildMembers\<close> call whose limit
  fails the range check, makes exactly one dispatcher call and returns its result
  (directly, or as the value its promise resolves with), with a verb among get, post,
  put, patch and delete and a data kind among json, multipart and none.
\<close>

theorem wrapper_dispatches_exactly_once:
  assumes "\<not> limit_out_of_range env i"
  shows "\<exists>c. trace (invoke env rh i) = [c]
           \<and> (completion (invoke env rh i) = Returned (rh c)
              \<or> completion (invoke env rh i) = AsyncResolved (rh c))
           \<and> verb c \<in> {''get'', ''post'', ''put'', ''patch'', ''delete''}
           \<and> dataKind c \<in> {''json'', ''multipart'', ''none''}"
proof (cases i)
  case (Bot c)
  then show ?thesis by (cases c) (simp_all add: wrapper_defs run_defs)
next
  case (Invite c)
  then show ?thesis by (cases c) (simp_all add: wrapper_defs run_defs)
next
  case (GuildAssets c)
  then show ?thesis by (cases c) (simp_all add: wrapper_defs run_defs)
next
  case (GuildTemplate c)
  then show ?thesis by (cases c) (simp_all add: wrapper_defs run_defs)
next
  case (AuditLog c)
  then show ?thesis by (cases c) (simp_all add: wrapper_defs run_defs)
next
  case (Guild c)
  with assms show ?thesis
    by (cases c) (simp_all add: wrapper_defs run_defs limit_out_of_range_def)
qed

theorem wrapper_dispatches_exactly_once_witness:
  "\<not> limit_out_of_range example_env (Guild (GetGuildBan ''7'' ''8''))
   \<and> trace (invoke example_env (\<lambda>c. ()) (Guild (GetGuildBan ''7'' ''8''))) =
       [\<lparr>url = ''/7/8'', verb = ''get'', dataKind = ''json'', payload = JUndefined\<rparr>]"
proof -
  have ok: "\<not> limit_out_of_range example_env (Guild (GetGuildBan ''7'' ''8''))"
    by (simp add: limit_out_of_range_def)
  from wrapper_dispatches_exactly_once [OF ok, of "\<lambda>c. ()"]
  obtain c where "trace (invoke example_env (\<lambda>c. ()) (Guild (GetGuildBan ''7'' ''8''))) = [c]"
    by blast
  then have "trace (invoke example_env (\<lambda>c. ()) (Guild (GetGuildBan ''7'' ''8''))) =
       [\<lparr>url = ''/7/8'', verb = ''get'', dataKind = ''json'', payload = JUndefined\<rparr>]"
    by (simp add: getGuildBan_def run_defs example_env_def)
  with ok show ?thesis by simp
qed

text \<open>
  C2 as stated fails: a \<open>searchGuildMembers\<close> call with limit 2000 (bounds 1 and 1000)
  makes no dispatcher call at all.
\<close>

theorem wrapper_without_dispatch_counterexample:
  "trace (invoke example_env (\<lambda>c. ())
            (Guild (SearchGuildMembers ''7''
               [(''query'', JStr ''Wolke''), (''limit'', JNum (Finite 2000))]))) = []"
  by (simp add: searchGuildMembers_def run_defs js_gt_def example_env_def get_prop_def)


section \<open>Properties of the Bucket Store\<close>











section \<open>Properties of the scheduler\<close>

subsection \<open>Changes of the Bucket Store\<close>

lemma merge_queues_Nil [simp]: "merge_queues xs [] = xs"
  by (cases xs) simp_all

lemma set_merge_queues [simp]: "set (merge_queues xs ys) = set xs \<union> set ys"
  by (induction xs ys rule: merge_queues.induct) auto

lemma distinct_merge_queues:
  "distinct (map jid xs) \<Longrightarrow> distinct (map jid ys) \<Longrightarrow> jid ` set xs \<inter> jid ` set ys = {} \<Longrightarrow>
   distinct (map jid (merge_queues xs ys))"
  by (induction xs ys rule: merge_queues.induct) auto

lemma update_bucket_canonical [simp]: "canonical (update_bucket st rk f) = canonical st"
  by (simp add: update_bucket_def split: option.splits)

lemma update_bucket_records:
  "canonical st rk = Some i \<Longrightarrow>
   records (update_bucket st rk f) = (records st)(i := map_option f (records st i))"
  by (simp add: update_bucket_def)

lemma tracked_update [simp]: "tracked (update_bucket st rk f) b = tracked st b"
  by (simp add: update_bucket_def tracked_def split: option.splits)

lemma trackedD: "tracked st b \<Longrightarrow> \<exists>r. records st b = Some r"
  by (simp add: tracked_def)

lemma untracked_queue [simp]: "\<not> tracked st b \<Longrightarrow> queue_at st b = []"
  by (simp add: tracked_def queue_at_def)

lemma untracked_flag [simp]: "\<not> tracked st b \<Longrightarrow> \<not> flag_at st b"
  by (simp add: tracked_def flag_at_def)

lemma queue_at_update:
  "canonical st rk = Some i \<Longrightarrow> records st i = Some r \<Longrightarrow>
   queue_at (update_bucket st rk f) b = (if b = i then queue (f r) else queue_at st b)"
  by (simp add: update_bucket_def queue_at_def)

lemma flag_at_update:
  "canonical st rk = Some i \<Longrightarrow> records st i = Some r \<Longrightarrow>
   flag_at (update_bucket st rk f) b = (if b = i then inFlight (f r) else flag_at st b)"
  by (simp add: update_bucket_def flag_at_def)

lemma queue_refresh [simp]: "queue (refresh b l r t) = queue b"
  by (simp add: refresh_def)

lemma inFlight_refresh [simp]: "inFlight (refresh b l r t) = inFlight b"
  by (simp add: refresh_def)

lemma queue_merge_buckets [simp]: "queue (merge_buckets a b) = merge_queues (queue a) (queue b)"
  by (simp add: merge_buckets_def)

lemma inFlight_merge_buckets [simp]: "inFlight (merge_buckets a b) = (inFlight a \<or> inFlight b)"
  by (simp add: merge_buckets_def)

lemma reconcile_canonical:
  assumes "canonical st rk = Some cur"
  shows "canonical (reconcile st rk sid l r t) k =
           (if canonical st k = Some cur then Some (Authoritative sid) else canonical st k)"
  using assms
  by (simp add: reconcile_def get_or_create_def Let_def redirect_def split: option.splits)

lemma reconcile_tracked:
  assumes "canonical st rk = Some cur" and "records st cur = Some rc"
  shows "tracked (reconcile st rk sid l r t) b =
           (b = Authoritative sid \<or> (b \<noteq> cur \<and> tracked st b))"
  unfolding tracked_def using assms
  by (auto simp add: reconcile_def get_or_create_def Let_def split: option.splits)

lemma reconcile_queue_at:
  assumes "canonical st rk = Some cur" and "records st cur = Some rc"
  shows "queue_at (reconcile st rk sid l r t) b =
           (if b = Authoritative sid
            then merge_queues (queue rc)
                   (if Authoritative sid = cur then [] else queue_at st (Authoritative sid))
            else if b = cur then [] else queue_at st b)"
  using assms
  by (auto simp add: reconcile_def get_or_create_def Let_def queue_at_def split: option.splits)

lemma reconcile_flag_at:
  assumes "canonical st rk = Some cur" and "records st cur = Some rc"
  shows "flag_at (reconcile st rk sid l r t) b =
           (if b = Authoritative sid
            then (inFlight rc \<or> (Authoritative sid \<noteq> cur \<and> flag_at st (Authoritative sid)))
            else if b = cur then False else flag_at st b)"
  using assms
  by (auto simp add: reconcile_def get_or_create_def Let_def flag_at_def split: option.splits)

lemma queue_at_update_keep:
  assumes "\<And>r. queue (f r) = queue r"
  shows "queue_at (update_bucket st rk f) b = queue_at st b"
proof (cases "canonical st rk")
  case None
  then show ?thesis by (simp add: update_bucket_def)
next
  case i: (Some i)
  show ?thesis
  proof (cases "records st i")
    case None
    with i show ?thesis by (simp add: update_bucket_def queue_at_def)
  next
    case (Some r)
    then have "queue_at st i = queue r" by (simp add: queue_at_def)
    with i Some show ?thesis by (simp add: queue_at_update assms)
  qed
qed

lemma flag_at_update_keep:
  assumes "\<And>r. inFlight (f r) = inFlight r"
  shows "flag_at (update_bucket st rk f) b = flag_at st b"
proof (cases "canonical st rk")
  case None
  then show ?thesis by (simp add: update_bucket_def)
next
  case i: (Some i)
  show ?thesis
  proof (cases "records st i")
    case None
    with i show ?thesis by (simp add: update_bucket_def flag_at_def)
  next
    case (Some r)
    then have "flag_at st i = inFlight r" by (simp add: flag_at_def)
    with i Some show ?thesis by (simp add: flag_at_update assms)
  qed
qed

lemma flag_at_update_clear:
  "canonical st rk = Some i \<Longrightarrow>
   flag_at (update_bucket st rk (\<lambda>b. b\<lparr>inFlight := False\<rparr>)) b = (if b = i then False else flag_at st b)"
  by (simp add: update_bucket_def flag_at_def split: option.splits)

lemma throttled_keeps [simp]:
  "queue (throttled t resp b) = queue b" "inFlight (throttled t resp b) = inFlight b"
  by (cases resp; simp)+

text \<open>The Bucket Store after a response, seen through the indirection table.\<close>

lemma respond_store:
  fixes t :: time and resp :: response and q' :: "job list \<Rightarrow> job list"
  assumes "canonical st rk = Some cur" and "records st cur = Some rc"
  defines "st' \<equiv> update_bucket
      (reconciled t resp rk
         (update_bucket st rk (\<lambda>b. (throttled t resp b)\<lparr>queue := q' (queue b)\<rparr>)))
      rk (\<lambda>b. b\<lparr>inFlight := False\<rparr>)"
  shows "canonical st' k = (if canonical st k = Some cur then Some (target resp cur) else canonical st k)"
    and "tracked st' b = (b = target resp cur \<or> (b \<noteq> cur \<and> tracked st b))"
    and "queue_at st' b =
           (if b = target resp cur
            then merge_queues (q' (queue rc))
                   (if target resp cur = cur then [] else queue_at st (target resp cur))
            else if b = cur then [] else queue_at st b)"
    and "flag_at st' b = (if b = target resp cur \<or> b = cur then False else flag_at st b)"
proof -
  define f where "f = (\<lambda>b. (throttled t resp b)\<lparr>queue := q' (queue b)\<rparr>)"
  have fq: "\<And>b. queue (f b) = q' (queue b)" and ff: "\<And>b. inFlight (f b) = inFlight b"
    by (simp_all add: f_def)
  define a where "a = update_bucket st rk f"
  have st': "st' = update_bucket (reconciled t resp rk a) rk (\<lambda>b. b\<lparr>inFlight := False\<rparr>)"
    by (simp add: st'_def a_def f_def)
  have ra: "records a = (records st)(cur \<mapsto> f rc)"
    using assms(1,2) by (simp add: a_def update_bucket_records)
  have a1: "canonical a rk = Some cur" using assms(1) by (simp add: a_def)
  have a2: "records a cur = Some (f rc)" by (simp add: ra)
  have ca: "\<And>k. canonical a k = canonical st k" by (simp add: a_def)
  have qa: "\<And>b. queue_at a b = (if b = cur then q' (queue rc) else queue_at st b)"
    using assms(1,2) by (simp add: a_def queue_at_update fq)
  have fa: "\<And>b. flag_at a b = flag_at st b"
    unfolding a_def by (rule flag_at_update_keep) (rule ff)
  define b' where "b' = reconciled t resp rk a"
  have cb: "\<And>k. canonical b' k =
      (if canonical st k = Some cur then Some (target resp cur) else canonical st k)"
    unfolding b'_def by (cases resp) (simp_all add: reconcile_canonical [OF a1] ca)
  have ka: "\<And>b. tracked a b = tracked st b" by (simp add: a_def)
  have kc: "tracked st cur" using assms(2) by (simp add: tracked_def)
  have kb: "\<And>b. tracked b' b = (b = target resp cur \<or> (b \<noteq> cur \<and> tracked st b))"
  proof (cases resp)
    case TransportFailure
    fix b show "tracked b' b = (b = target resp cur \<or> (b \<noteq> cur \<and> tracked st b))"
      using kc by (cases "b = cur") (simp_all add: b'_def TransportFailure ka)
  next
    case (Response status h body)
    fix b show "tracked b' b = (b = target resp cur \<or> (b \<noteq> cur \<and> tracked st b))"
      by (simp add: b'_def Response reconcile_tracked [OF a1 a2] ka)
  qed
  have qb: "\<And>b. queue_at b' b =
           (if b = target resp cur
            then merge_queues (q' (queue rc))
                   (if target resp cur = cur then [] else queue_at st (target resp cur))
            else if b = cur then [] else queue_at st b)"
  proof (cases resp)
    case TransportFailure
    fix b show "queue_at b' b =
           (if b = target resp cur
            then merge_queues (q' (queue rc))
                   (if target resp cur = cur then [] else queue_at st (target resp cur))
            else if b = cur then [] else queue_at st b)"
      by (simp add: b'_def TransportFailure qa)
  next
    case (Response status h body)
    fix b show "queue_at b' b =
           (if b = target resp cur
            then merge_queues (q' (queue rc))
                   (if target resp cur = cur then [] else queue_at st (target resp cur))
            else if b = cur then [] else queue_at st b)"
      by (simp add: b'_def Response reconcile_queue_at [OF a1 a2] qa fq)
  qed
  have fb: "\<And>b. b \<noteq> target resp cur \<Longrightarrow> flag_at b' b = (if b = cur then False else flag_at st b)"
  proof (cases resp)
    case TransportFailure
    fix b assume "b \<noteq> target resp cur"
    then show "flag_at b' b = (if b = cur then False else flag_at st b)"
      by (simp add: b'_def TransportFailure fa)
  next
    case (Response status h body)
    fix b assume "b \<noteq> target resp cur"
    then show "flag_at b' b = (if b = cur then False else flag_at st b)"
      by (simp add: b'_def Response reconcile_flag_at [OF a1 a2] fa)
  qed
  have b1: "canonical b' rk = Some (target resp cur)" using assms(1) by (simp add: cb)
  have st'': "st' = update_bucket b' rk (\<lambda>b. b\<lparr>inFlight := False\<rparr>)"
    by (simp add: st' b'_def)
  show "canonical st' k = (if canonical st k = Some cur then Some (target resp cur) else canonical st k)"
    by (simp add: st'' cb)
  show "tracked st' b = (b = target resp cur \<or> (b \<noteq> cur \<and> tracked st b))"
    by (simp add: st'' kb)
  have "queue_at st' b = queue_at b' b"
    unfolding st'' by (rule queue_at_update_keep) simp
  then show "queue_at st' b =
           (if b = target resp cur
            then merge_queues (q' (queue rc))
                   (if target resp cur = cur then [] else queue_at st (target resp cur))
            else if b = cur then [] else queue_at st b)"
    by (simp only: qb)
  have fc: "flag_at st' b = (if b = target resp cur then False else flag_at b' b)"
    unfolding st'' by (rule flag_at_update_clear [OF b1])
  show "flag_at st' b = (if b = target resp cur \<or> b = cur then False else flag_at st b)"
  proof (cases "b = target resp cur")
    case True
    with fc show ?thesis by simp
  next
    case False
    with fc fb [OF False] show ?thesis by simp
  qed
qed

subsection \<open>What the events change\<close>

lemma well_formedI:
  assumes "\<And>k i. canonical (bucket_store s) k = Some i \<Longrightarrow> tracked (bucket_store s) i"
    and "\<And>k. tracked (bucket_store s) (Provisional k) \<Longrightarrow>
           canonical (bucket_store s) k = Some (Provisional k)"
    and "\<And>f. f \<in> set (flights s) \<Longrightarrow>
           fst f = key_of cfg (snd f) \<and> (\<exists>b. canonical (bucket_store s) (fst f) = Some b)"
    and "\<And>b j. j \<in> set (queued s b) \<Longrightarrow> canonical (bucket_store s) (key_of cfg j) = Some b"
    and "\<And>e. e \<in> set (submitted s) \<Longrightarrow> \<exists>b. canonical (bucket_store s) (fst e) = Some b"
    and "\<And>e. e \<in> set (settled s) \<Longrightarrow> \<exists>b. canonical (bucket_store s) (fst e) = Some b"
  shows "well_formed cfg s"
  using assms unfolding well_formed_def by blast

lemma wf_resolved:
  "well_formed cfg s \<Longrightarrow> canonical (bucket_store s) k = Some i \<Longrightarrow> tracked (bucket_store s) i"
  unfolding well_formed_def by blast

lemma wf_provisional:
  "well_formed cfg s \<Longrightarrow> tracked (bucket_store s) (Provisional k) \<Longrightarrow>
   canonical (bucket_store s) k = Some (Provisional k)"
  unfolding well_formed_def by blast

lemma wf_flight:
  "well_formed cfg s \<Longrightarrow> f \<in> set (flights s) \<Longrightarrow>
   fst f = key_of cfg (snd f) \<and> (\<exists>b. canonical (bucket_store s) (fst f) = Some b)"
  unfolding well_formed_def by blast

lemma wf_queued:
  "well_formed cfg s \<Longrightarrow> j \<in> set (queued s b) \<Longrightarrow>
   canonical (bucket_store s) (key_of cfg j) = Some b"
  unfolding well_formed_def by blast

lemma wf_submitted:
  "well_formed cfg s \<Longrightarrow> e \<in> set (submitted s) \<Longrightarrow> \<exists>b. canonical (bucket_store s) (fst e) = Some b"
  unfolding well_formed_def by blast

lemma wf_settled:
  "well_formed cfg s \<Longrightarrow> e \<in> set (settled s) \<Longrightarrow> \<exists>b. canonical (bucket_store s) (fst e) = Some b"
  unfolding well_formed_def by blast

lemma submit_logs [simp]:
  "submitted (submit cfg s c) = submitted s @ [(resolve cfg (verb c) (url c), next_jid s)]"
  "settled (submit cfg s c) = settled s"
  "abandoned (submit cfg s c) = abandoned s"
  "flights (submit cfg s c) = flights s"
  "next_jid (submit cfg s c) = Suc (next_jid s)"
  by (simp_all add: submit_def Let_def)

lemma submit_effect:
  fixes c :: request_call
  assumes "well_formed cfg s"
  defines "rk \<equiv> resolve cfg (verb c) (url c)"
  defines "i0 \<equiv> (case canonical (bucket_store s) rk of None \<Rightarrow> Provisional rk | Some i \<Rightarrow> i)"
  defines "j \<equiv> \<lparr>jid = next_jid s, call = c, attempt = 0, forced = 0, notBefore = 0\<rparr>"
  shows "canonical (bucket_store (submit cfg s c)) k =
           (if k = rk then Some i0 else canonical (bucket_store s) k)"
    and "tracked (bucket_store (submit cfg s c)) b = (b = i0 \<or> tracked (bucket_store s) b)"
    and "queued (submit cfg s c) b = (if b = i0 then queued s b @ [j] else queued s b)"
    and "flagged (submit cfg s c) b = flagged s b"
proof -
  let ?st = "bucket_store s"
  let ?g = "get_or_create ?st rk"
  let ?f = "\<lambda>b. b\<lparr>queue := queue b @ [j]\<rparr>"
  have s': "bucket_store (submit cfg s c) = update_bucket ?g rk ?f"
    by (simp add: submit_def Let_def rk_def j_def)
  have cg: "\<And>k. canonical ?g k = (if k = rk then Some i0 else canonical ?st k)"
    by (simp add: get_or_create_def i0_def split: option.splits)
  have tg: "\<And>b. tracked ?g b = (b = i0 \<or> tracked ?st b)"
  proof (cases "canonical ?st rk")
    case None
    fix b show "tracked ?g b = (b = i0 \<or> tracked ?st b)"
      using None by (simp add: get_or_create_def i0_def tracked_def)
  next
    case (Some i)
    fix b show "tracked ?g b = (b = i0 \<or> tracked ?st b)"
      using Some wf_resolved [OF assms(1) Some] by (auto simp add: get_or_create_def i0_def)
  qed
  have "tracked ?g i0" by (simp add: tg)
  then obtain r where r: "records ?g i0 = Some r" by (auto dest: trackedD)
  have c0: "canonical ?g rk = Some i0" by (simp add: cg)
  have q0: "queue_at ?g i0 = queue_at ?st i0" and f0: "flag_at ?g i0 = flag_at ?st i0"
  proof -
    show "queue_at ?g i0 = queue_at ?st i0"
    proof (cases "canonical ?st rk")
      case None
      then have "\<not> tracked ?st (Provisional rk)" using wf_provisional [OF assms(1), of rk] by auto
      with None show ?thesis
        by (simp add: get_or_create_def i0_def queue_at_def new_bucket_def tracked_def)
    next
      case (Some i)
      then show ?thesis by (simp add: get_or_create_def)
    qed
    show "flag_at ?g i0 = flag_at ?st i0"
    proof (cases "canonical ?st rk")
      case None
      then have "\<not> tracked ?st (Provisional rk)" using wf_provisional [OF assms(1), of rk] by auto
      with None show ?thesis
        by (simp add: get_or_create_def i0_def flag_at_def new_bucket_def tracked_def)
    next
      case (Some i)
      then show ?thesis by (simp add: get_or_create_def)
    qed
  qed
  have other: "\<And>b. b \<noteq> i0 \<Longrightarrow> records ?g b = records ?st b"
    by (simp add: get_or_create_def i0_def split: option.splits)
  have qr: "queue r = queue_at ?st i0" and fr: "inFlight r = flag_at ?st i0"
    using r q0 f0 by (simp_all add: queue_at_def flag_at_def)
  show "canonical (bucket_store (submit cfg s c)) k =
           (if k = rk then Some i0 else canonical (bucket_store s) k)"
    by (simp add: s' cg)
  show "tracked (bucket_store (submit cfg s c)) b = (b = i0 \<or> tracked (bucket_store s) b)"
    by (simp add: s' tg)
  show "queued (submit cfg s c) b = (if b = i0 then queued s b @ [j] else queued s b)"
    using other [of b]
    by (simp add: queued_def s' queue_at_update [OF c0 r] qr) (simp add: queue_at_def)
  show "flagged (submit cfg s c) b = flagged s b"
    using other [of b]
    by (simp add: flagged_def s' flag_at_update [OF c0 r] fr) (simp add: flag_at_def)
qed

lemma dispatchE:
  assumes "dispatch cfg s rk = Some s'"
  obtains i r j rest g' where "canonical (bucket_store s) rk = Some i"
    "records (bucket_store s) i = Some r" "queue r = j # rest" "\<not> inFlight r"
    "acquire cfg (now s) (global s) = Some g'"
    "s' = s\<lparr>bucket_store := update_bucket (bucket_store s) rk
                (\<lambda>b. b\<lparr>queue := rest, inFlight := True,
                       b_remaining := (if remaining_positive b then b_remaining b else None)\<rparr>),
              flights := flights s @ [(key_of cfg j, j)], global := g'\<rparr>"
  using assms
  by (auto simp add: dispatch_def bucket_of_def admits_def
      split: option.splits list.splits if_splits)

lemma dispatch_effect:
  assumes "dispatch cfg s rk = Some s'"
  obtains i j rest where "canonical (bucket_store s) rk = Some i"
    "queued s i = j # rest" "\<not> flagged s i"
    "canonical (bucket_store s') = canonical (bucket_store s)"
    "\<forall>b. tracked (bucket_store s') b = tracked (bucket_store s) b"
    "\<forall>b. queued s' b = (if b = i then rest else queued s b)"
    "\<forall>b. flagged s' b = (if b = i then True else flagged s b)"
    "flights s' = flights s @ [(key_of cfg j, j)]"
    "settled s' = settled s" "submitted s' = submitted s" "abandoned s' = abandoned s"
    "next_jid s' = next_jid s"
proof -
  from assms obtain i r j rest g' where i: "canonical (bucket_store s) rk = Some i"
    and r: "records (bucket_store s) i = Some r" and q: "queue r = j # rest"
    and idle: "\<not> inFlight r"
    and s': "s' = s\<lparr>bucket_store := update_bucket (bucket_store s) rk
                (\<lambda>b. b\<lparr>queue := rest, inFlight := True,
                       b_remaining := (if remaining_positive b then b_remaining b else None)\<rparr>),
              flights := flights s @ [(key_of cfg j, j)], global := g'\<rparr>"
    by (rule dispatchE)
  show ?thesis
  proof (rule that [of i j rest])
    show "canonical (bucket_store s) rk = Some i" by (rule i)
    show "queued s i = j # rest" using r q by (simp add: queued_def queue_at_def)
    show "\<not> flagged s i" using r idle by (simp add: flagged_def flag_at_def)
    show "canonical (bucket_store s') = canonical (bucket_store s)" by (simp add: s')
    show "\<forall>b. tracked (bucket_store s') b = tracked (bucket_store s) b" by (simp add: s')
    show "\<forall>b. queued s' b = (if b = i then rest else queued s b)"
      by (simp add: s' queued_def queue_at_update [OF i r])
    show "\<forall>b. flagged s' b = (if b = i then True else flagged s b)"
      by (simp add: s' flagged_def flag_at_update [OF i r])
    show "flights s' = flights s @ [(key_of cfg j, j)]" by (simp add: s')
    show "settled s' = settled s" "submitted s' = submitted s" "abandoned s' = abandoned s"
      "next_jid s' = next_jid s" by (simp_all add: s')
  qed
qed

lemma find_SomeD: "find P xs = Some x \<Longrightarrow> P x \<and> x \<in> set xs"
  by (induction xs) (auto split: if_splits)

lemma respondE:
  assumes "respond cfg s i resp = Some s'"
  obtains f where "find (\<lambda>f. jid (snd f) = i) (flights s) = Some f"
    "s' = s\<lparr>bucket_store := update_bucket
                (reconciled (now s) resp (fst f)
                   (update_bucket (bucket_store s) (fst f)
                      (\<lambda>b. (throttled (now s) resp b)
                              \<lparr>queue := requeued cfg (now s) resp (snd f) (queue b)\<rparr>)))
                (fst f) (\<lambda>b. b\<lparr>inFlight := False\<rparr>),
             flights := remove1 f (flights s),
             global := release cfg (observe cfg (now s) resp (global s)),
             settled := settled s @ settlements cfg (fst f) (snd f) resp\<rparr>"
proof -
  from assms obtain f where f: "find (\<lambda>f. jid (snd f) = i) (flights s) = Some f"
    by (cases "find (\<lambda>f. jid (snd f) = i) (flights s)") (simp_all add: respond_def)
  from assms show ?thesis
    by (intro that [OF f]) (simp add: respond_def f Let_def eq_commute [of _ s'])
qed

lemma respond_effect:
  assumes "well_formed cfg s" and "respond cfg s i resp = Some s'"
  obtains f cur where "find (\<lambda>f. jid (snd f) = i) (flights s) = Some f"
    "f \<in> set (flights s)" "jid (snd f) = i" "fst f = key_of cfg (snd f)"
    "canonical (bucket_store s) (fst f) = Some cur" "tracked (bucket_store s) cur"
    "\<forall>k. canonical (bucket_store s') k =
           (if canonical (bucket_store s) k = Some cur then Some (target resp cur)
            else canonical (bucket_store s) k)"
    "\<forall>b. tracked (bucket_store s') b =
           (b = target resp cur \<or> (b \<noteq> cur \<and> tracked (bucket_store s) b))"
    "\<forall>b. queued s' b =
           (if b = target resp cur
            then merge_queues (requeued cfg (now s) resp (snd f) (queued s cur))
                   (if target resp cur = cur then [] else queued s (target resp cur))
            else if b = cur then [] else queued s b)"
    "\<forall>b. flagged s' b = (if b = target resp cur \<or> b = cur then False else flagged s b)"
    "flights s' = remove1 f (flights s)"
    "settled s' = settled s @ settlements cfg (fst f) (snd f) resp"
    "submitted s' = submitted s" "abandoned s' = abandoned s" "next_jid s' = next_jid s"
proof -
  from assms(2) obtain f where f: "find (\<lambda>f. jid (snd f) = i) (flights s) = Some f"
    and s': "s' = s\<lparr>bucket_store := update_bucket
                (reconciled (now s) resp (fst f)
                   (update_bucket (bucket_store s) (fst f)
                      (\<lambda>b. (throttled (now s) resp b)
                              \<lparr>queue := requeued cfg (now s) resp (snd f) (queue b)\<rparr>)))
                (fst f) (\<lambda>b. b\<lparr>inFlight := False\<rparr>),
             flights := remove1 f (flights s),
             global := release cfg (observe cfg (now s) resp (global s)),
             settled := settled s @ settlements cfg (fst f) (snd f) resp\<rparr>"
    by (rule respondE)
  from find_SomeD [OF f] have fi: "jid (snd f) = i" and fin: "f \<in> set (flights s)"
    by simp_all
  from wf_flight [OF assms(1) fin] obtain cur
    where fk: "fst f = key_of cfg (snd f)" and cur: "canonical (bucket_store s) (fst f) = Some cur"
    by auto
  have tc: "tracked (bucket_store s) cur" by (rule wf_resolved [OF assms(1) cur])
  then obtain rc where rc: "records (bucket_store s) cur = Some rc" by (auto dest: trackedD)
  have qc: "queue rc = queue_at (bucket_store s) cur" using rc by (simp add: queue_at_def)
  have bs: "bucket_store s' = update_bucket
                (reconciled (now s) resp (fst f)
                   (update_bucket (bucket_store s) (fst f)
                      (\<lambda>b. (throttled (now s) resp b)
                              \<lparr>queue := requeued cfg (now s) resp (snd f) (queue b)\<rparr>)))
                (fst f) (\<lambda>b. b\<lparr>inFlight := False\<rparr>)"
    by (simp add: s')
  note st = respond_store [OF cur rc, of "now s" resp "requeued cfg (now s) resp (snd f)",
      folded bs, unfolded qc]
  show ?thesis
  proof (rule that [of f cur])
    show "find (\<lambda>f. jid (snd f) = i) (flights s) = Some f" by (rule f)
    show "f \<in> set (flights s)" by (rule fin)
    show "jid (snd f) = i" by (rule fi)
    show "fst f = key_of cfg (snd f)" by (rule fk)
    show "canonical (bucket_store s) (fst f) = Some cur" by (rule cur)
    show "tracked (bucket_store s) cur" by (rule tc)
    show "\<forall>k. canonical (bucket_store s') k =
           (if canonical (bucket_store s) k = Some cur then Some (target resp cur)
            else canonical (bucket_store s) k)"
      by (intro allI st(1))
    show "\<forall>b. tracked (bucket_store s') b =
           (b = target resp cur \<or> (b \<noteq> cur \<and> tracked (bucket_store s) b))"
      by (intro allI st(2))
    show "\<forall>b. queued s' b =
           (if b = target resp cur
            then merge_queues (requeued cfg (now s) resp (snd f) (queued s cur))
                   (if target resp cur = cur then [] else queued s (target resp cur))
            else if b = cur then [] else queued s b)"
      unfolding queued_def by (intro allI st(3))
    show "\<forall>b. flagged s' b = (if b = target resp cur \<or> b = cur then False else flagged s b)"
      unfolding flagged_def by (intro allI st(4))
    show "flights s' = remove1 f (flights s)"
      "settled s' = settled s @ settlements cfg (fst f) (snd f) resp"
      "submitted s' = submitted s" "abandoned s' = abandoned s" "next_jid s' = next_jid s"
      by (simp_all add: s')
  qed
qed

lemma cancel_effect:
  obtains "cancel s rk x = s"
  | i where "canonical (bucket_store s) rk = Some i" "x \<in> jid ` set (queued s i)"
    "canonical (bucket_store (cancel s rk x)) = canonical (bucket_store s)"
    "\<forall>b. tracked (bucket_store (cancel s rk x)) b = tracked (bucket_store s) b"
    "\<forall>b. queued (cancel s rk x) b =
           (if b = i then filter (\<lambda>j. jid j \<noteq> x) (queued s i) else queued s b)"
    "\<forall>b. flagged (cancel s rk x) b = flagged s b"
    "flights (cancel s rk x) = flights s" "settled (cancel s rk x) = settled s"
    "submitted (cancel s rk x) = submitted s" "abandoned (cancel s rk x) = x # abandoned s"
    "next_jid (cancel s rk x) = next_jid s"
proof (cases "\<exists>r. bucket_of (bucket_store s) rk = Some r \<and> x \<in> set (map jid (queue r))")
  case False
  then have "cancel s rk x = s" by (auto simp add: cancel_def split: option.splits)
  then show ?thesis by (rule that(1))
next
  case True
  then obtain i r where i: "canonical (bucket_store s) rk = Some i"
    and r: "records (bucket_store s) i = Some r" and x: "x \<in> set (map jid (queue r))"
    by (auto simp add: bucket_of_def split: option.splits)
  have s': "cancel s rk x =
      s\<lparr>bucket_store := update_bucket (bucket_store s) rk
                           (\<lambda>b. b\<lparr>queue := filter (\<lambda>j. jid j \<noteq> x) (queue b)\<rparr>),
        abandoned := x # abandoned s\<rparr>"
    using i r x by (simp add: cancel_def bucket_of_def)
  have q: "queued s i = queue r" using r by (simp add: queued_def queue_at_def)
  show ?thesis
  proof (rule that(2) [of i])
    show "canonical (bucket_store s) rk = Some i" by (rule i)
    show "x \<in> jid ` set (queued s i)" using x by (simp add: q)
    show "canonical (bucket_store (cancel s rk x)) = canonical (bucket_store s)"
      by (simp add: s')
    show "\<forall>b. tracked (bucket_store (cancel s rk x)) b = tracked (bucket_store s) b"
      by (simp add: s')
    show "\<forall>b. queued (cancel s rk x) b =
           (if b = i then filter (\<lambda>j. jid j \<noteq> x) (queued s i) else queued s b)"
      by (simp add: s' q) (simp add: queued_def queue_at_update [OF i r])
    show "\<forall>b. flagged (cancel s rk x) b = flagged s b"
      unfolding s' flagged_def by (simp add: flag_at_update_keep)
    show "flights (cancel s rk x) = flights s" "settled (cancel s rk x) = settled s"
      "submitted (cancel s rk x) = submitted s" "abandoned (cancel s rk x) = x # abandoned s"
      "next_jid (cancel s rk x) = next_jid s"
      by (simp_all add: s')
  qed
qed

subsection \<open>The Bucket Store stays well formed\<close>

lemma set_requeue [simp]: "set (requeue n j q) = insert j (set q)"
proof -
  have "set (take n q) \<union> set (drop n q) = set q"
    by (metis append_take_drop_id set_append)
  then show ?thesis by (auto simp add: requeue_def)
qed

lemma rescheduled_same [simp]:
  "jid (rescheduled t resp d j) = jid j" "call (rescheduled t resp d j) = call j"
  by (cases resp; simp)+

lemma key_of_rescheduled [simp]: "key_of cfg (rescheduled t resp d j) = key_of cfg j"
  by (simp add: key_of_def)

lemma requeued_mem:
  assumes "x \<in> set (requeued cfg t resp j q)"
  shows "x \<in> set q \<or>
         (jid x = jid j \<and> key_of cfg x = key_of cfg j \<and> settlements cfg rk j resp = [])"
  using assms
  by (cases "interpret_response cfg j resp") (auto simp add: requeued_def settlements_def)

lemma requeued_old: "x \<in> set q \<Longrightarrow> x \<in> set (requeued cfg t resp j q)"
  by (cases "interpret_response cfg j resp") (auto simp add: requeued_def)

lemma well_formed_initial: "well_formed cfg (initial g)"
  by (simp add: well_formed_def initial_def queued_def queue_at_def tracked_def)

lemma well_formed_submit:
  fixes c :: request_call
  assumes "well_formed cfg s"
  shows "well_formed cfg (submit cfg s c)"
proof -
  define rk where "rk = resolve cfg (verb c) (url c)"
  define i0 where "i0 = (case canonical (bucket_store s) rk of None \<Rightarrow> Provisional rk | Some i \<Rightarrow> i)"
  define j where "j = \<lparr>jid = next_jid s, call = c, attempt = 0, forced = 0, notBefore = 0\<rparr>"
  let ?s = "submit cfg s c"
  note eff = submit_effect [OF assms, of c, folded rk_def, folded i0_def j_def]
  note can = eff(1) and tr = eff(2) and qu = eff(3)
  have kj: "key_of cfg j = rk" by (simp add: key_of_def j_def rk_def)
  have keep: "canonical (bucket_store ?s) k = Some i" if a: "canonical (bucket_store s) k = Some i" for k i
  proof (cases "k = rk")
    case True
    with a have "i0 = i" by (simp add: i0_def)
    with True show ?thesis by (simp add: can)
  next
    case False
    with a show ?thesis by (simp add: can)
  qed
  have keep': "\<exists>b. canonical (bucket_store ?s) k = Some b"
    if "\<exists>b. canonical (bucket_store s) k = Some b" for k
    using that keep by blast
  show ?thesis
  proof (rule well_formedI)
    fix k i assume "canonical (bucket_store ?s) k = Some i"
    then have "i = i0 \<or> canonical (bucket_store s) k = Some i"
      by (simp add: can split: if_splits)
    then show "tracked (bucket_store ?s) i"
      using wf_resolved [OF assms] by (auto simp add: tr)
  next
    fix k assume t: "tracked (bucket_store ?s) (Provisional k)"
    show "canonical (bucket_store ?s) k = Some (Provisional k)"
    proof (cases "tracked (bucket_store s) (Provisional k)")
      case True
      from keep [OF wf_provisional [OF assms True]] show ?thesis .
    next
      case False
      with t have eq: "Provisional k = i0" by (simp add: tr)
      show ?thesis
      proof (cases "canonical (bucket_store s) rk")
        case None
        with eq have "k = rk" and "i0 = Provisional k" by (simp_all add: i0_def)
        then show ?thesis by (simp add: can)
      next
        case (Some i)
        with eq have "canonical (bucket_store s) rk = Some (Provisional k)" by (simp add: i0_def)
        from wf_resolved [OF assms this] False show ?thesis by simp
      qed
    qed
  next
    fix f assume "f \<in> set (flights ?s)"
    then have "f \<in> set (flights s)" by simp
    from wf_flight [OF assms this] show
      "fst f = key_of cfg (snd f) \<and> (\<exists>b. canonical (bucket_store ?s) (fst f) = Some b)"
      using keep' by blast
  next
    fix b x assume "x \<in> set (queued ?s b)"
    then have "x \<in> set (queued s b) \<or> (x = j \<and> b = i0)"
      by (auto simp add: qu split: if_splits)
    then show "canonical (bucket_store ?s) (key_of cfg x) = Some b"
    proof
      assume "x \<in> set (queued s b)"
      from keep [OF wf_queued [OF assms this]] show ?thesis .
    next
      assume "x = j \<and> b = i0"
      then show ?thesis by (simp add: kj can)
    qed
  next
    fix e assume "e \<in> set (submitted ?s)"
    then consider "e \<in> set (submitted s)" | "fst e = rk" by (auto simp add: rk_def)
    then show "\<exists>b. canonical (bucket_store ?s) (fst e) = Some b"
    proof cases
      case 1
      from keep' [OF wf_submitted [OF assms 1]] show ?thesis .
    next
      case 2
      then have "canonical (bucket_store ?s) (fst e) = Some i0" by (simp add: can)
      then show ?thesis by blast
    qed
  next
    fix e assume "e \<in> set (settled ?s)"
    then have "e \<in> set (settled s)" by simp
    from keep' [OF wf_settled [OF assms this]] show "\<exists>b. canonical (bucket_store ?s) (fst e) = Some b" .
  qed
qed

lemma well_formed_dispatch:
  assumes "well_formed cfg s" and "dispatch cfg s rk = Some s'"
  shows "well_formed cfg s'"
proof -
  from assms(2) obtain i j rest where i: "canonical (bucket_store s) rk = Some i"
    and q: "queued s i = j # rest"
    and can: "canonical (bucket_store s') = canonical (bucket_store s)"
    and tr: "\<forall>b. tracked (bucket_store s') b = tracked (bucket_store s) b"
    and qu: "\<forall>b. queued s' b = (if b = i then rest else queued s b)"
    and fl: "flights s' = flights s @ [(key_of cfg j, j)]"
    and logs: "settled s' = settled s" "submitted s' = submitted s"
    by (rule dispatch_effect)
  have sub: "\<And>b x. x \<in> set (queued s' b) \<Longrightarrow> x \<in> set (queued s b)"
    using q by (auto simp add: qu split: if_splits)
  have "j \<in> set (queued s i)" by (simp add: q)
  from wf_queued [OF assms(1) this] have kj: "canonical (bucket_store s) (key_of cfg j) = Some i" .
  show ?thesis
  proof (rule well_formedI)
    fix k b assume "canonical (bucket_store s') k = Some b"
    then show "tracked (bucket_store s') b" using wf_resolved [OF assms(1)] by (simp add: can tr)
  next
    fix k assume "tracked (bucket_store s') (Provisional k)"
    then show "canonical (bucket_store s') k = Some (Provisional k)"
      using wf_provisional [OF assms(1)] by (simp add: can tr)
  next
    fix f assume "f \<in> set (flights s')"
    then consider "f \<in> set (flights s)" | "f = (key_of cfg j, j)" by (auto simp add: fl)
    then show "fst f = key_of cfg (snd f) \<and> (\<exists>b. canonical (bucket_store s') (fst f) = Some b)"
    proof cases
      case 1
      show ?thesis unfolding can by (rule wf_flight [OF assms(1) 1])
    next
      case 2
      with kj show ?thesis by (simp add: can)
    qed
  next
    fix b x assume "x \<in> set (queued s' b)"
    from wf_queued [OF assms(1) sub [OF this]]
    show "canonical (bucket_store s') (key_of cfg x) = Some b" by (simp add: can)
  next
    fix e assume "e \<in> set (submitted s')"
    then have "e \<in> set (submitted s)" by (simp add: logs)
    then show "\<exists>b. canonical (bucket_store s') (fst e) = Some b"
      unfolding can by (rule wf_submitted [OF assms(1)])
  next
    fix e assume "e \<in> set (settled s')"
    then have "e \<in> set (settled s)" by (simp add: logs)
    then show "\<exists>b. canonical (bucket_store s') (fst e) = Some b"
      unfolding can by (rule wf_settled [OF assms(1)])
  qed
qed

lemma target_cases: "target resp cur = cur \<or> (\<exists>sid. target resp cur = Authoritative sid)"
  by (cases resp) simp_all

text \<open>Where a Request that is queued after a response was before it.\<close>

lemma respond_queued_from:
  assumes qu: "\<forall>b. queued s' b =
           (if b = fin
            then merge_queues (requeued cfg t resp j (queued s cur))
                   (if fin = cur then [] else queued s fin)
            else if b = cur then [] else queued s b)"
    and x: "x \<in> set (queued s' b)"
  shows "(b = fin \<and> jid x = jid j \<and> key_of cfg x = key_of cfg j \<and> settlements cfg rk j resp = [])
       \<or> (x \<in> set (queued s b) \<and> b \<noteq> cur) \<or> (x \<in> set (queued s b) \<and> b = fin)
       \<or> (x \<in> set (queued s cur) \<and> b = fin)"
proof (cases "b = fin")
  case True
  with x qu have "x \<in> set (requeued cfg t resp j (queued s cur)) \<or> x \<in> set (queued s fin)"
    by (auto split: if_splits)
  then show ?thesis
    using requeued_mem [of x cfg t resp j "queued s cur" rk] True by blast
next
  case False
  with x qu have "x \<in> set (queued s b) \<and> b \<noteq> cur" by (auto split: if_splits)
  then show ?thesis by blast
qed

lemma well_formed_respond:
  assumes "well_formed cfg s" and "respond cfg s i resp = Some s'"
  shows "well_formed cfg s'"
proof -
  from assms obtain f cur where fin: "f \<in> set (flights s)"
    and fk: "fst f = key_of cfg (snd f)"
    and cur: "canonical (bucket_store s) (fst f) = Some cur"
    and tc: "tracked (bucket_store s) cur"
    and can: "\<forall>k. canonical (bucket_store s') k =
           (if canonical (bucket_store s) k = Some cur then Some (target resp cur)
            else canonical (bucket_store s) k)"
    and tr: "\<forall>b. tracked (bucket_store s') b =
           (b = target resp cur \<or> (b \<noteq> cur \<and> tracked (bucket_store s) b))"
    and qu: "\<forall>b. queued s' b =
           (if b = target resp cur
            then merge_queues (requeued cfg (now s) resp (snd f) (queued s cur))
                   (if target resp cur = cur then [] else queued s (target resp cur))
            else if b = cur then [] else queued s b)"
    and fl: "flights s' = remove1 f (flights s)"
    and st: "settled s' = settled s @ settlements cfg (fst f) (snd f) resp"
    and su: "submitted s' = submitted s"
    by (rule respond_effect)
  let ?fin = "target resp cur"
  have keep': "\<exists>b. canonical (bucket_store s') k = Some b"
    if "\<exists>b. canonical (bucket_store s) k = Some b" for k
    using that by (auto simp add: can)
  have moved: "\<And>k b. canonical (bucket_store s) k = Some b \<Longrightarrow>
      canonical (bucket_store s') k = Some (if b = cur then ?fin else b)"
    by (simp add: can)
  show ?thesis
  proof (rule well_formedI)
    fix k b assume "canonical (bucket_store s') k = Some b"
    then have "b = ?fin \<or> (b \<noteq> cur \<and> canonical (bucket_store s) k = Some b)"
      by (auto simp add: can split: if_splits)
    then show "tracked (bucket_store s') b"
      using wf_resolved [OF assms(1)] by (auto simp add: tr)
  next
    fix k assume t: "tracked (bucket_store s') (Provisional k)"
    show "canonical (bucket_store s') k = Some (Provisional k)"
    proof (cases "Provisional k = cur")
      case True
      with t have "?fin = cur" using target_cases [of resp cur] by (auto simp add: tr)
      moreover have "canonical (bucket_store s) k = Some cur"
        using wf_provisional [OF assms(1), of k] tc True by simp
      ultimately show ?thesis using True by (simp add: can)
    next
      case False
      with t have "Provisional k = ?fin \<or> tracked (bucket_store s) (Provisional k)"
        by (auto simp add: tr)
      then have "tracked (bucket_store s) (Provisional k)"
        using target_cases [of resp cur] False by auto
      from wf_provisional [OF assms(1) this] False show ?thesis by (simp add: can)
    qed
  next
    fix g assume "g \<in> set (flights s')"
    then have "g \<in> set (flights s)" using set_remove1_subset [of f "flights s"] by (auto simp add: fl)
    from wf_flight [OF assms(1) this] keep'
    show "fst g = key_of cfg (snd g) \<and> (\<exists>b. canonical (bucket_store s') (fst g) = Some b)" by blast
  next
    fix b x assume "x \<in> set (queued s' b)"
    from respond_queued_from [OF qu this, of "fst f"]
    consider "b = ?fin" "key_of cfg x = key_of cfg (snd f)"
      | "x \<in> set (queued s b)" "b \<noteq> cur" | "x \<in> set (queued s b)" "b = ?fin"
      | "x \<in> set (queued s cur)" "b = ?fin"
      by blast
    then show "canonical (bucket_store s') (key_of cfg x) = Some b"
    proof cases
      case 1
      with moved [OF cur] fk show ?thesis by simp
    next
      case 2
      with moved [OF wf_queued [OF assms(1) 2(1)]] show ?thesis by simp
    next
      case 3
      with moved [OF wf_queued [OF assms(1) 3(1)]] show ?thesis by simp
    next
      case 4
      with moved [OF wf_queued [OF assms(1) 4(1)]] show ?thesis by simp
    qed
  next
    fix e assume "e \<in> set (submitted s')"
    then have "e \<in> set (submitted s)" by (simp add: su)
    from keep' [OF wf_submitted [OF assms(1) this]]
    show "\<exists>b. canonical (bucket_store s') (fst e) = Some b" .
  next
    fix e assume "e \<in> set (settled s')"
    then consider "e \<in> set (settled s)" | "fst e = fst f"
      by (cases "interpret_response cfg (snd f) resp") (auto simp add: st settlements_def)
    then show "\<exists>b. canonical (bucket_store s') (fst e) = Some b"
    proof cases
      case 1
      from keep' [OF wf_settled [OF assms(1) 1]] show ?thesis .
    next
      case 2
      from cur have "\<exists>b. canonical (bucket_store s) (fst e) = Some b" unfolding 2 by blast
      from keep' [OF this] show ?thesis .
    qed
  qed
qed

lemma well_formed_cancel:
  assumes "well_formed cfg s"
  shows "well_formed cfg (cancel s rk x)"
proof (rule cancel_effect [of s rk x])
  assume "cancel s rk x = s"
  with assms show ?thesis by simp
next
  fix i
  let ?s = "cancel s rk x"
  assume can: "canonical (bucket_store ?s) = canonical (bucket_store s)"
    and tr: "\<forall>b. tracked (bucket_store ?s) b = tracked (bucket_store s) b"
    and qu: "\<forall>b. queued ?s b =
           (if b = i then filter (\<lambda>j. jid j \<noteq> x) (queued s i) else queued s b)"
    and logs: "flights ?s = flights s" "settled ?s = settled s" "submitted ?s = submitted s"
  have sub: "\<And>b y. y \<in> set (queued ?s b) \<Longrightarrow> y \<in> set (queued s b)"
    by (auto simp add: qu split: if_splits)
  show ?thesis
  proof (rule well_formedI)
    fix k b assume "canonical (bucket_store ?s) k = Some b"
    then show "tracked (bucket_store ?s) b" using wf_resolved [OF assms] by (simp add: can tr)
  next
    fix k assume "tracked (bucket_store ?s) (Provisional k)"
    then show "canonical (bucket_store ?s) k = Some (Provisional k)"
      using wf_provisional [OF assms] by (simp add: can tr)
  next
    fix f assume "f \<in> set (flights ?s)"
    then have "f \<in> set (flights s)" by (simp add: logs)
    show "fst f = key_of cfg (snd f) \<and> (\<exists>b. canonical (bucket_store ?s) (fst f) = Some b)"
      unfolding can by (rule wf_flight [OF assms \<open>f \<in> set (flights s)\<close>])
  next
    fix b y assume "y \<in> set (queued ?s b)"
    from wf_queued [OF assms sub [OF this]]
    show "canonical (bucket_store ?s) (key_of cfg y) = Some b" by (simp add: can)
  next
    fix e assume "e \<in> set (submitted ?s)"
    then have "e \<in> set (submitted s)" by (simp add: logs)
    then show "\<exists>b. canonical (bucket_store ?s) (fst e) = Some b"
      unfolding can by (rule wf_submitted [OF assms])
  next
    fix e assume "e \<in> set (settled ?s)"
    then have "e \<in> set (settled s)" by (simp add: logs)
    then show "\<exists>b. canonical (bucket_store ?s) (fst e) = Some b"
      unfolding can by (rule wf_settled [OF assms])
  qed
qed

lemma well_formed_tick:
  assumes "well_formed cfg s"
  shows "well_formed cfg (s\<lparr>now := now s + d\<rparr>)"
proof -
  let ?s = "s\<lparr>now := now s + d\<rparr>"
  have eq: "bucket_store ?s = bucket_store s" "flights ?s = flights s"
    "submitted ?s = submitted s" "settled ?s = settled s"
    by simp_all
  from assms show ?thesis
    unfolding well_formed_def queued_def by (simp only: eq)
qed

lemma well_formed_step:
  assumes "well_formed cfg s" and "step cfg s e = Some s'"
  shows "well_formed cfg s'"
proof (cases e)
  case (Submit c)
  with assms show ?thesis using well_formed_submit by auto
next
  case (Dispatch rk)
  with assms show ?thesis using well_formed_dispatch by auto
next
  case (Respond i resp)
  with assms show ?thesis using well_formed_respond by auto
next
  case (Cancel rk i)
  with assms show ?thesis using well_formed_cancel by auto
next
  case (Tick d)
  with assms show ?thesis using well_formed_tick by auto
qed

lemma reachable_well_formed: "reachable cfg g s \<Longrightarrow> well_formed cfg s"
  by (induction rule: reachable.induct) (auto intro: well_formed_initial well_formed_step)

subsection \<open>Every Request is in one place\<close>

lemma owned_onceI:
  assumes "distinct (map (\<lambda>e. fst (snd e)) (settled s))"
    and "distinct (map (\<lambda>f. jid (snd f)) (flights s))"
    and "\<And>e f. e \<in> set (settled s) \<Longrightarrow> f \<in> set (flights s) \<Longrightarrow> fst (snd e) \<noteq> jid (snd f)"
    and "\<And>b. distinct (map jid (queued s b))"
    and "\<And>b j e. j \<in> set (queued s b) \<Longrightarrow> e \<in> set (settled s) \<Longrightarrow> fst (snd e) \<noteq> jid j"
    and "\<And>b j f. j \<in> set (queued s b) \<Longrightarrow> f \<in> set (flights s) \<Longrightarrow> jid (snd f) \<noteq> jid j"
    and "\<And>b j b' j'. j \<in> set (queued s b) \<Longrightarrow> j' \<in> set (queued s b') \<Longrightarrow> jid j' = jid j \<Longrightarrow>
           b' = b"
    and "\<And>e. e \<in> set (settled s) \<Longrightarrow> fst (snd e) < next_jid s"
    and "\<And>f. f \<in> set (flights s) \<Longrightarrow> jid (snd f) < next_jid s"
    and "\<And>b j. j \<in> set (queued s b) \<Longrightarrow> jid j < next_jid s"
  shows "owned_once s"
  unfolding owned_once_def using assms by blast

lemma oo_settled: "owned_once s \<Longrightarrow> distinct (map (\<lambda>e. fst (snd e)) (settled s))"
  unfolding owned_once_def by blast

lemma oo_flights: "owned_once s \<Longrightarrow> distinct (map (\<lambda>f. jid (snd f)) (flights s))"
  unfolding owned_once_def by blast

lemma oo_apart:
  "owned_once s \<Longrightarrow> e \<in> set (settled s) \<Longrightarrow> f \<in> set (flights s) \<Longrightarrow>
   fst (snd e) \<noteq> jid (snd f)"
  unfolding owned_once_def by blast

lemma oo_queue: "owned_once s \<Longrightarrow> distinct (map jid (queued s b))"
  unfolding owned_once_def by blast

lemma oo_q_settled:
  "owned_once s \<Longrightarrow> j \<in> set (queued s b) \<Longrightarrow> e \<in> set (settled s) \<Longrightarrow> fst (snd e) \<noteq> jid j"
  unfolding owned_once_def by blast

lemma oo_q_flights:
  "owned_once s \<Longrightarrow> j \<in> set (queued s b) \<Longrightarrow> f \<in> set (flights s) \<Longrightarrow> jid (snd f) \<noteq> jid j"
  unfolding owned_once_def by blast

lemma oo_q_one:
  "owned_once s \<Longrightarrow> j \<in> set (queued s b) \<Longrightarrow> j' \<in> set (queued s b') \<Longrightarrow> jid j' = jid j \<Longrightarrow>
   b' = b"
  unfolding owned_once_def by blast

lemma oo_below_settled: "owned_once s \<Longrightarrow> e \<in> set (settled s) \<Longrightarrow> fst (snd e) < next_jid s"
  unfolding owned_once_def by blast

lemma oo_below_flights: "owned_once s \<Longrightarrow> f \<in> set (flights s) \<Longrightarrow> jid (snd f) < next_jid s"
  unfolding owned_once_def by blast

lemma oo_below_queued: "owned_once s \<Longrightarrow> j \<in> set (queued s b) \<Longrightarrow> jid j < next_jid s"
  unfolding owned_once_def by blast

lemma owned_once_initial: "owned_once (initial g)"
  by (simp add: owned_once_def initial_def queued_def queue_at_def)

lemma owned_once_submit:
  fixes c :: request_call
  assumes "well_formed cfg s" and "owned_once s"
  shows "owned_once (submit cfg s c)"
proof -
  define rk where "rk = resolve cfg (verb c) (url c)"
  define i0 where "i0 = (case canonical (bucket_store s) rk of None \<Rightarrow> Provisional rk | Some i \<Rightarrow> i)"
  define j where "j = \<lparr>jid = next_jid s, call = c, attempt = 0, forced = 0, notBefore = 0\<rparr>"
  let ?s = "submit cfg s c"
  note eff = submit_effect [OF assms(1), of c, folded rk_def, folded i0_def j_def]
  note qu = eff(3)
  note oo = assms(2)
  have jj: "jid j = next_jid s" by (simp add: j_def)
  have src: "(x \<in> set (queued s b) \<and> jid x < next_jid s) \<or> (x = j \<and> b = i0)"
    if "x \<in> set (queued ?s b)" for x b
    using that oo_below_queued [OF oo] by (auto simp add: qu split: if_splits)
  show ?thesis
  proof (rule owned_onceI)
    show "distinct (map (\<lambda>e. fst (snd e)) (settled ?s))" using oo_settled [OF oo] by simp
    show "distinct (map (\<lambda>f. jid (snd f)) (flights ?s))" using oo_flights [OF oo] by simp
  next
    fix e f assume "e \<in> set (settled ?s)" "f \<in> set (flights ?s)"
    then have "e \<in> set (settled s)" "f \<in> set (flights s)" by simp_all
    then show "fst (snd e) \<noteq> jid (snd f)" by (rule oo_apart [OF oo])
  next
    fix b
    have "next_jid s \<notin> jid ` set (queued s i0)" using oo_below_queued [OF oo] by fastforce
    then show "distinct (map jid (queued ?s b))"
      using oo_queue [OF oo] by (simp add: qu jj)
  next
    fix b x e assume x: "x \<in> set (queued ?s b)" and "e \<in> set (settled ?s)"
    then have e: "e \<in> set (settled s)" by simp
    from src [OF x] show "fst (snd e) \<noteq> jid x"
      using oo_q_settled [OF oo _ e] oo_below_settled [OF oo e] jj by fastforce
  next
    fix b x f assume x: "x \<in> set (queued ?s b)" and "f \<in> set (flights ?s)"
    then have f: "f \<in> set (flights s)" by simp
    from src [OF x] show "jid (snd f) \<noteq> jid x"
      using oo_q_flights [OF oo _ f] oo_below_flights [OF oo f] jj by fastforce
  next
    fix b x b' x' assume x: "x \<in> set (queued ?s b)" and x': "x' \<in> set (queued ?s b')"
      and same: "jid x' = jid x"
    from src [OF x] src [OF x'] same jj show "b' = b"
      using oo_q_one [OF oo] by (metis less_irrefl)
  next
    fix e assume "e \<in> set (settled ?s)"
    then have "e \<in> set (settled s)" by simp
    from oo_below_settled [OF oo this] show "fst (snd e) < next_jid ?s" by simp
  next
    fix f assume "f \<in> set (flights ?s)"
    then have "f \<in> set (flights s)" by simp
    from oo_below_flights [OF oo this] show "jid (snd f) < next_jid ?s" by simp
  next
    fix b x assume "x \<in> set (queued ?s b)"
    from src [OF this] jj show "jid x < next_jid ?s" by auto
  qed
qed

lemma owned_once_dispatch:
  assumes "owned_once s" and "dispatch cfg s rk = Some s'"
  shows "owned_once s'"
proof -
  from assms(2) obtain i j rest where q: "queued s i = j # rest"
    and qu: "\<forall>b. queued s' b = (if b = i then rest else queued s b)"
    and fl: "flights s' = flights s @ [(key_of cfg j, j)]"
    and logs: "settled s' = settled s" "next_jid s' = next_jid s"
    by (rule dispatch_effect)
  note oo = assms(1)
  have ji: "j \<in> set (queued s i)" by (simp add: q)
  have sub: "x \<in> set (queued s b)" if "x \<in> set (queued s' b)" for x b
    using that q by (auto simp add: qu split: if_splits)
  have away: "jid x \<noteq> jid j" if x: "x \<in> set (queued s' b)" for x b
  proof
    assume eq: "jid x = jid j"
    from oo_q_one [OF oo ji sub [OF x] eq] have "b = i" .
    with x have "x \<in> set rest" by (simp add: qu)
    moreover have "jid j \<notin> jid ` set rest" using oo_queue [OF oo, of i] by (simp add: q)
    ultimately show False using eq by (metis image_eqI)
  qed
  have fl_cases: "f \<in> set (flights s) \<or> snd f = j" if "f \<in> set (flights s')" for f
    using that by (auto simp add: fl)
  show ?thesis
  proof (rule owned_onceI)
    show "distinct (map (\<lambda>e. fst (snd e)) (settled s'))" using oo_settled [OF oo] by (simp add: logs)
    have "jid j \<notin> (\<lambda>f. jid (snd f)) ` set (flights s)"
    proof
      assume "jid j \<in> (\<lambda>f. jid (snd f)) ` set (flights s)"
      then obtain f where "jid j = jid (snd f)" "f \<in> set (flights s)" by (rule imageE)
      with oo_q_flights [OF oo ji this(2)] show False by simp
    qed
    then show "distinct (map (\<lambda>f. jid (snd f)) (flights s'))"
      using oo_flights [OF oo] by (simp add: fl)
  next
    fix e f assume "e \<in> set (settled s')" and f: "f \<in> set (flights s')"
    then have e: "e \<in> set (settled s)" by (simp add: logs)
    from fl_cases [OF f] show "fst (snd e) \<noteq> jid (snd f)"
    proof
      assume "f \<in> set (flights s)"
      then show ?thesis by (rule oo_apart [OF oo e])
    next
      assume "snd f = j"
      with oo_q_settled [OF oo ji e] show ?thesis by simp
    qed
  next
    fix b show "distinct (map jid (queued s' b))"
      using oo_queue [OF oo, of b] oo_queue [OF oo, of i] by (simp add: qu q)
  next
    fix b x e assume x: "x \<in> set (queued s' b)" and "e \<in> set (settled s')"
    then have e: "e \<in> set (settled s)" by (simp add: logs)
    show "fst (snd e) \<noteq> jid x" by (rule oo_q_settled [OF oo sub [OF x] e])
  next
    fix b x f assume x: "x \<in> set (queued s' b)" and f: "f \<in> set (flights s')"
    from fl_cases [OF f] show "jid (snd f) \<noteq> jid x"
    proof
      assume "f \<in> set (flights s)"
      then show ?thesis by (rule oo_q_flights [OF oo sub [OF x]])
    next
      assume "snd f = j"
      with away [OF x] show ?thesis by simp
    qed
  next
    fix b x b' x' assume "x \<in> set (queued s' b)" "x' \<in> set (queued s' b')" "jid x' = jid x"
    then show "b' = b" using oo_q_one [OF oo] sub by blast
  next
    fix e assume "e \<in> set (settled s')"
    then have "e \<in> set (settled s)" by (simp add: logs)
    from oo_below_settled [OF oo this] show "fst (snd e) < next_jid s'" by (simp add: logs)
  next
    fix f assume "f \<in> set (flights s')"
    from fl_cases [OF this] show "jid (snd f) < next_jid s'"
    proof
      assume "f \<in> set (flights s)"
      from oo_below_flights [OF oo this] show ?thesis by (simp add: logs)
    next
      assume "snd f = j"
      with oo_below_queued [OF oo ji] show ?thesis by (simp add: logs)
    qed
  next
    fix b x assume "x \<in> set (queued s' b)"
    from oo_below_queued [OF oo sub [OF this]] show "jid x < next_jid s'" by (simp add: logs)
  qed
qed

lemma distinct_requeue:
  assumes "distinct (map jid q)" and "jid j \<notin> jid ` set q"
  shows "distinct (map jid (requeue n j q))"
proof -
  have parts: "set (take n q) \<union> set (drop n q) = set q"
    by (metis append_take_drop_id set_append)
  have "distinct (map jid (take n q @ drop n q))" using assms(1) by simp
  then have d: "distinct (map jid (take n q))" "distinct (map jid (drop n q))"
    "jid ` set (take n q) \<inter> jid ` set (drop n q) = {}"
    by (simp_all only: map_append distinct_append set_map)
  from assms(2) parts have "jid j \<notin> jid ` set (take n q)" "jid j \<notin> jid ` set (drop n q)"
    by auto
  with d show ?thesis by (auto simp add: requeue_def)
qed

lemma distinct_requeued:
  assumes "distinct (map jid q)" and "jid j \<notin> jid ` set q"
  shows "distinct (map jid (requeued cfg t resp j q))"
  using assms
  by (cases "interpret_response cfg j resp") (simp_all add: requeued_def distinct_requeue)

lemma remove1_flight:
  assumes "distinct (map (\<lambda>f. jid (snd f)) fs)" and "f \<in> set fs" and "g \<in> set (remove1 f fs)"
  shows "g \<in> set fs \<and> jid (snd g) \<noteq> jid (snd f)"
proof -
  from assms(1) have d: "distinct fs" and inj: "inj_on (\<lambda>f. jid (snd f)) (set fs)"
    by (simp_all add: distinct_map)
  from assms(3) d have g: "g \<in> set fs" "g \<noteq> f" by simp_all
  with inj assms(2) have "jid (snd g) \<noteq> jid (snd f)" by (auto dest: inj_onD)
  with g show ?thesis by simp
qed

lemma distinct_map_remove1:
  assumes "distinct (map h xs)"
  shows "distinct (map h (remove1 x xs))"
proof -
  from assms have "distinct xs" "inj_on h (set xs)" by (simp_all add: distinct_map)
  then have "distinct (remove1 x xs)" "inj_on h (set (remove1 x xs))"
    using set_remove1_subset [of x xs] by (auto intro: inj_on_subset)
  then show ?thesis by (simp add: distinct_map)
qed

lemma distinct_snoc:
  assumes "distinct (map h xs)" and "\<And>e. e \<in> set xs \<Longrightarrow> h e \<noteq> y"
  shows "distinct (map h xs @ [y])"
proof -
  have "y \<notin> h ` set xs"
  proof
    assume "y \<in> h ` set xs"
    then obtain e where "y = h e" "e \<in> set xs" by (rule imageE)
    with assms(2) [OF this(2)] show False by simp
  qed
  with assms(1) show ?thesis by simp
qed

lemma settlements_cases:
  "settlements cfg rk j resp = [] \<or> (\<exists>v. settlements cfg rk j resp = [(rk, jid j, v)])"
  by (cases "interpret_response cfg j resp") (simp_all add: settlements_def)

lemma owned_once_respond:
  assumes "well_formed cfg s" and "owned_once s" and "respond cfg s i resp = Some s'"
  shows "owned_once s'"
proof -
  from assms(1,3) obtain f cur where fin: "f \<in> set (flights s)"
    and fi: "jid (snd f) = i"
    and qu: "\<forall>b. queued s' b =
           (if b = target resp cur
            then merge_queues (requeued cfg (now s) resp (snd f) (queued s cur))
                   (if target resp cur = cur then [] else queued s (target resp cur))
            else if b = cur then [] else queued s b)"
    and fl: "flights s' = remove1 f (flights s)"
    and st: "settled s' = settled s @ settlements cfg (fst f) (snd f) resp"
    and nx: "next_jid s' = next_jid s"
    by (rule respond_effect)
  note oo = assms(2)
  let ?fin = "target resp cur"
  let ?log = "settlements cfg (fst f) (snd f) resp"
  define loc where "loc bo = (if bo = cur then ?fin else bo)" for bo
  have q_from: "(b = ?fin \<and> jid x = i \<and> ?log = []) \<or> (\<exists>bo. x \<in> set (queued s bo) \<and> b = loc bo)"
    if x: "x \<in> set (queued s' b)" for x b
  proof -
    from respond_queued_from [OF qu x, of "fst f"]
    consider (new) "b = ?fin" "jid x = jid (snd f)" "?log = []"
      | (same) "x \<in> set (queued s b)" "b \<noteq> cur"
      | (there) "x \<in> set (queued s b)" "b = ?fin"
      | (moved) "x \<in> set (queued s cur)" "b = ?fin"
      by blast
    then show ?thesis
    proof cases
      case new
      then show ?thesis using fi by simp
    next
      case same
      then have "x \<in> set (queued s b) \<and> b = loc b" by (simp add: loc_def)
      then show ?thesis by blast
    next
      case there
      then have "x \<in> set (queued s b) \<and> b = loc b" by (simp add: loc_def)
      then show ?thesis by blast
    next
      case moved
      then have "x \<in> set (queued s cur) \<and> b = loc cur" by (simp add: loc_def)
      then show ?thesis by blast
    qed
  qed
  have f_from: "g \<in> set (flights s) \<and> jid (snd g) \<noteq> i" if "g \<in> set (flights s')" for g
    using remove1_flight [OF oo_flights [OF oo] fin] that fi by (simp add: fl)
  have s_from: "e \<in> set (settled s) \<or> (fst (snd e) = i \<and> ?log \<noteq> [])" if "e \<in> set (settled s')" for e
    using that settlements_cases [of cfg "fst f" "snd f" resp] fi by (auto simp add: st)
  have unsettled: "fst (snd e) \<noteq> i" if "e \<in> set (settled s)" for e
    using oo_apart [OF oo that fin] fi by simp
  have unqueued: "jid x \<noteq> i" if "x \<in> set (queued s b)" for x b
    using oo_q_flights [OF oo that fin] fi by simp
  show ?thesis
  proof (rule owned_onceI)
    from settlements_cases [of cfg "fst f" "snd f" resp]
    show "distinct (map (\<lambda>e. fst (snd e)) (settled s'))"
    proof
      assume "?log = []"
      with oo_settled [OF oo] show ?thesis by (simp add: st)
    next
      assume "\<exists>v. ?log = [(fst f, jid (snd f), v)]"
      then obtain v where v: "?log = [(fst f, jid (snd f), v)]" by blast
      from distinct_snoc [OF oo_settled [OF oo], of i] unsettled
      have "distinct (map (\<lambda>e. fst (snd e)) (settled s) @ [i])" by blast
      then show ?thesis by (simp add: st v fi)
    qed
    show "distinct (map (\<lambda>f. jid (snd f)) (flights s'))"
      unfolding fl by (rule distinct_map_remove1 [OF oo_flights [OF oo]])
  next
    fix e g assume e: "e \<in> set (settled s')" and g: "g \<in> set (flights s')"
    from f_from [OF g] have g1: "g \<in> set (flights s)" and g2: "jid (snd g) \<noteq> i" by simp_all
    from s_from [OF e] show "fst (snd e) \<noteq> jid (snd g)"
    proof
      assume "e \<in> set (settled s)"
      then show ?thesis using g1 by (rule oo_apart [OF oo])
    next
      assume "fst (snd e) = i \<and> ?log \<noteq> []"
      with g2 show ?thesis by simp
    qed
  next
    fix b
    show "distinct (map jid (queued s' b))"
    proof (cases "b = ?fin")
      case True
      have 1: "distinct (map jid (requeued cfg (now s) resp (snd f) (queued s cur)))"
      proof (rule distinct_requeued [OF oo_queue [OF oo]])
        show "jid (snd f) \<notin> jid ` set (queued s cur)"
        proof
          assume "jid (snd f) \<in> jid ` set (queued s cur)"
          then obtain y where "jid (snd f) = jid y" "y \<in> set (queued s cur)" by (rule imageE)
          with unqueued [OF this(2)] fi show False by simp
        qed
      qed
      have 2: "distinct (map jid (if ?fin = cur then [] else queued s ?fin))"
        using oo_queue [OF oo, of ?fin] by simp
      have 3: "jid ` set (requeued cfg (now s) resp (snd f) (queued s cur)) \<inter>
               jid ` set (if ?fin = cur then [] else queued s ?fin) = {}"
      proof (cases "?fin = cur")
        case True
        then show ?thesis by simp
      next
        case False
        have "jid x \<noteq> jid y" if x: "x \<in> set (requeued cfg (now s) resp (snd f) (queued s cur))"
          and y: "y \<in> set (queued s ?fin)" for x y
        proof
          assume eq: "jid x = jid y"
          from requeued_mem [OF x, of "fst f"] consider "x \<in> set (queued s cur)" | "jid x = i"
            using fi by auto
          then show False
          proof cases
            case 1
            from oo_q_one [OF oo 1 y] eq False show False by simp
          next
            case 2
            with unqueued [OF y] eq show False by simp
          qed
        qed
        with False show ?thesis by auto
      qed
      from True show ?thesis
        by (simp add: qu distinct_merge_queues [OF 1 2 3])
    next
      case False
      then show ?thesis using oo_queue [OF oo, of b] by (simp add: qu)
    qed
  next
    fix b x e assume "x \<in> set (queued s' b)" "e \<in> set (settled s')"
    from q_from [OF this(1)] s_from [OF this(2)] show "fst (snd e) \<noteq> jid x"
      using oo_q_settled [OF oo] unsettled unqueued by metis
  next
    fix b x g assume "x \<in> set (queued s' b)" "g \<in> set (flights s')"
    from q_from [OF this(1)] f_from [OF this(2)] show "jid (snd g) \<noteq> jid x"
      using oo_q_flights [OF oo] by metis
  next
    fix b x b' x' assume "x \<in> set (queued s' b)" "x' \<in> set (queued s' b')" "jid x' = jid x"
    with q_from [of x b] q_from [of x' b'] show "b' = b"
      using oo_q_one [OF oo] unqueued by metis
  next
    fix e assume "e \<in> set (settled s')"
    from s_from [OF this] show "fst (snd e) < next_jid s'"
    proof
      assume "e \<in> set (settled s)"
      from oo_below_settled [OF oo this] show ?thesis by (simp add: nx)
    next
      assume "fst (snd e) = i \<and> ?log \<noteq> []"
      with oo_below_flights [OF oo fin] fi show ?thesis by (simp add: nx)
    qed
  next
    fix g assume "g \<in> set (flights s')"
    from f_from [OF this] have "g \<in> set (flights s)" by simp
    from oo_below_flights [OF oo this] show "jid (snd g) < next_jid s'" by (simp add: nx)
  next
    fix b x assume "x \<in> set (queued s' b)"
    from q_from [OF this] consider "jid x = i" | bo where "x \<in> set (queued s bo)" by blast
    then show "jid x < next_jid s'"
    proof cases
      case 1
      with oo_below_flights [OF oo fin] fi show ?thesis by (simp add: nx)
    next
      case 2
      from oo_below_queued [OF oo this] show ?thesis by (simp add: nx)
    qed
  qed
qed

lemma owned_once_cancel:
  assumes "owned_once s"
  shows "owned_once (cancel s rk x)"
proof (rule cancel_effect [of s rk x])
  assume "cancel s rk x = s"
  with assms show ?thesis by simp
next
  fix i
  let ?s = "cancel s rk x"
  assume qu: "\<forall>b. queued ?s b =
           (if b = i then filter (\<lambda>j. jid j \<noteq> x) (queued s i) else queued s b)"
    and logs: "flights ?s = flights s" "settled ?s = settled s" "next_jid ?s = next_jid s"
  note oo = assms
  have sub: "y \<in> set (queued s b)" if "y \<in> set (queued ?s b)" for y b
    using that by (auto simp add: qu split: if_splits)
  show ?thesis
  proof (rule owned_onceI)
    show "distinct (map (\<lambda>e. fst (snd e)) (settled ?s))" using oo_settled [OF oo] by (simp add: logs)
    show "distinct (map (\<lambda>f. jid (snd f)) (flights ?s))" using oo_flights [OF oo] by (simp add: logs)
  next
    fix e f assume "e \<in> set (settled ?s)" "f \<in> set (flights ?s)"
    then have "e \<in> set (settled s)" "f \<in> set (flights s)" by (simp_all add: logs)
    then show "fst (snd e) \<noteq> jid (snd f)" by (rule oo_apart [OF oo])
  next
    fix b show "distinct (map jid (queued ?s b))"
      using oo_queue [OF oo, of b] oo_queue [OF oo, of i] by (simp add: qu distinct_map_filter)
  next
    fix b y e assume y: "y \<in> set (queued ?s b)" and "e \<in> set (settled ?s)"
    then have e: "e \<in> set (settled s)" by (simp add: logs)
    show "fst (snd e) \<noteq> jid y" by (rule oo_q_settled [OF oo sub [OF y] e])
  next
    fix b y f assume y: "y \<in> set (queued ?s b)" and "f \<in> set (flights ?s)"
    then have f: "f \<in> set (flights s)" by (simp add: logs)
    show "jid (snd f) \<noteq> jid y" by (rule oo_q_flights [OF oo sub [OF y] f])
  next
    fix b y b' y' assume "y \<in> set (queued ?s b)" "y' \<in> set (queued ?s b')" "jid y' = jid y"
    then show "b' = b" using oo_q_one [OF oo] sub by blast
  next
    fix e assume "e \<in> set (settled ?s)"
    then have "e \<in> set (settled s)" by (simp add: logs)
    from oo_below_settled [OF oo this] show "fst (snd e) < next_jid ?s" by (simp add: logs)
  next
    fix f assume "f \<in> set (flights ?s)"
    then have "f \<in> set (flights s)" by (simp add: logs)
    from oo_below_flights [OF oo this] show "jid (snd f) < next_jid ?s" by (simp add: logs)
  next
    fix b y assume "y \<in> set (queued ?s b)"
    from oo_below_queued [OF oo sub [OF this]] show "jid y < next_jid ?s" by (simp add: logs)
  qed
qed

lemma owned_once_tick:
  assumes "owned_once s"
  shows "owned_once (s\<lparr>now := now s + d\<rparr>)"
proof -
  let ?s = "s\<lparr>now := now s + d\<rparr>"
  have eq: "bucket_store ?s = bucket_store s" "flights ?s = flights s"
    "settled ?s = settled s" "next_jid ?s = next_jid s"
    by simp_all
  from assms show ?thesis
    unfolding owned_once_def queued_def eq .
qed

lemma owned_once_step:
  assumes "well_formed cfg s" and "owned_once s" and "step cfg s e = Some s'"
  shows "owned_once s'"
proof (cases e)
  case (Submit c)
  with assms show ?thesis using owned_once_submit by auto
next
  case (Dispatch rk)
  with assms show ?thesis using owned_once_dispatch by auto
next
  case (Respond i resp)
  with assms show ?thesis using owned_once_respond by auto
next
  case (Cancel rk i)
  with assms show ?thesis using owned_once_cancel by auto
next
  case (Tick d)
  with assms show ?thesis using owned_once_tick by auto
qed

lemma reachable_owned_once: "reachable cfg g s \<Longrightarrow> owned_once s"
proof (induction rule: reachable.induct)
  case at_start
  show ?case by (rule owned_once_initial)
next
  case (after_step s e s')
  from owned_once_step [OF reachable_well_formed [OF after_step(1)] after_step(3,2)]
  show ?case .
qed

subsection \<open>The logs name each Request once\<close>





subsection \<open>At most one Request of a Bucket in flight\<close>





















subsection \<open>Completion in submission order\<close>























subsection \<open>Runs\<close>

lemma steps_reachable:
  "reachable cfg g s \<Longrightarrow> steps cfg s es = Some s' \<Longrightarrow> reachable cfg g s'"
proof (induction es arbitrary: s)
  case Nil
  then show ?case by simp
next
  case (Cons e es)
  then show ?case
    by (cases "step cfg s e") (auto intro: reachable.after_step)
qed



lemma steps_snoc:
  "steps cfg s es = Some s1 \<Longrightarrow> step cfg s1 e = Some s2 \<Longrightarrow> steps cfg s (es @ [e]) = Some s2"
proof (induction es arbitrary: s)
  case Nil
  then show ?case by simp
next
  case (Cons a es)
  then show ?case by (cases "step cfg s a") auto
qed

lemma state_after_snoc:
  assumes "steps cfg (initial ()) es \<noteq> None" and "step cfg (state_after cfg es) e = Some s'"
  shows "state_after cfg (es @ [e]) = s'"
proof -
  from assms(1) obtain s where s: "steps cfg (initial ()) es = Some s" by blast
  with assms(2) have "step cfg s e = Some s'" by (simp add: state_after_def)
  from steps_snoc [OF s this] show ?thesis by (simp add: state_after_def)
qed

lemma reachable_state_after:
  "steps cfg (initial ()) es \<noteq> None \<Longrightarrow> reachable cfg () (state_after cfg es)"
  unfolding state_after_def
  by (rule steps_reachable [OF reachable.at_start]) simp


lemma step_settled: "step cfg s e = Some s' \<Longrightarrow> \<exists>es. settled s' = settled s @ es"
proof (cases e)
  case (Respond i resp)
  assume "step cfg s e = Some s'"
  with Respond have "respond cfg s i resp = Some s'" by simp
  then show ?thesis by (rule respondE) simp
next
  case (Dispatch rk)
  assume "step cfg s e = Some s'"
  with Dispatch have "dispatch cfg s rk = Some s'" by simp
  then show ?thesis by (rule dispatchE) simp
qed (auto simp add: submit_def cancel_def Let_def split: option.splits)

lemma steps_settled: "steps cfg s es = Some s' \<Longrightarrow> \<exists>xs. settled s' = settled s @ xs"
proof (induction es arbitrary: s)
  case Nil
  then show ?case by simp
next
  case (Cons e es)
  then obtain s1 where 1: "step cfg s e = Some s1" and 2: "steps cfg s1 es = Some s'"
    by (cases "step cfg s e") auto
  from step_settled [OF 1] Cons.IH [OF 2] show ?case by auto
qed

lemma once_in_distinct:
  "distinct (map f xs) \<Longrightarrow> x \<in> set xs \<Longrightarrow> length (filter (\<lambda>e. f e = f x) xs) = 1"
proof (induction xs)
  case Nil
  then show ?case by simp
next
  case (Cons y ys)
  show ?case
  proof (cases "x = y")
    case True
    from Cons.prems(1) have "f y \<notin> f ` set ys" by simp
    then have "\<And>e. e \<in> set ys \<Longrightarrow> f e \<noteq> f y" by (metis imageI)
    then have "filter (\<lambda>e. f e = f y) ys = []"
      by (simp add: filter_empty_conv)
    with True show ?thesis by simp
  next
    case False
    with Cons.prems have "x \<in> set ys" "f y \<noteq> f x" by auto
    with Cons show ?thesis by simp
  qed
qed

lemma find_distinct:
  "distinct (map h xs) \<Longrightarrow> x \<in> set xs \<Longrightarrow> find (\<lambda>y. h y = h x) xs = Some x"
proof (induction xs)
  case Nil
  then show ?case by simp
next
  case (Cons y ys)
  show ?case
  proof (cases "x = y")
    case True
    then show ?thesis by simp
  next
    case False
    with Cons.prems have x: "x \<in> set ys" by simp
    with Cons.prems(1) have "h y \<noteq> h x" by (metis distinct.simps(2) imageI list.simps(9) set_map)
    with Cons.IH x Cons.prems(1) show ?thesis by simp
  qed
qed








text \<open>
  C6. When an in-flight Request is answered with a status that is not 2xx, not 429 and
  not in 500 to 599, the decision is \<open>Fail\<close> with the HTTP error carrying the status and
  the parsed body: the completion handle, not settled before, is rejected with that
  error, the Request leaves the Requests in flight and is in no queue afterwards, and in
  every later state the handle has been settled exactly once.
\<close>

theorem other_status_terminal:
  assumes "reachable cfg g s" and "(rk, j) \<in> set (flights s)"
    and "status \<noteq> 429" and "\<not> (500 \<le> status \<and> status \<le> 599)"
    and "\<not> (200 \<le> status \<and> status \<le> 299)"
  shows "\<exists>s'. step cfg s (Respond (jid j) (Response status h body)) = Some s'
       \<and> interpret_response cfg j (Response status h body) =
           Fail (HTTPError status (parse cfg ''json'' body))
       \<and> jid j \<notin> set (map (\<lambda>e. fst (snd e)) (settled s))
       \<and> settled s' = settled s @ [(rk, jid j, Rejected (HTTPError status (parse cfg ''json'' body)))]
       \<and> flights s' = remove1 (rk, j) (flights s)
       \<and> jid j \<notin> set (map (\<lambda>f. jid (snd f)) (flights s'))
       \<and> (\<forall>b. jid j \<notin> set (map jid (queued s' b)))
       \<and> (\<forall>es s''. steps cfg s' es = Some s'' \<longrightarrow>
            length (filter (\<lambda>e. fst (snd e) = jid j) (settled s'')) = 1)"
proof -
  let ?resp = "Response status h body"
  let ?err = "HTTPError status (parse cfg ''json'' body)"
  note wf = reachable_well_formed [OF assms(1)]
  note oo = reachable_owned_once [OF assms(1)]
  have out: "interpret_response cfg j ?resp = Fail ?err"
    using assms(3-5) by simp
  from find_distinct [OF oo_flights [OF oo] assms(2)]
  have fnd: "find (\<lambda>f. jid (snd f) = jid j) (flights s) = Some (rk, j)" by simp
  obtain s' where s': "respond cfg s (jid j) ?resp = Some s'"
    by (simp add: respond_def fnd Let_def)
  from wf s' obtain f cur where "find (\<lambda>f. jid (snd f) = jid j) (flights s) = Some f"
    and fl': "flights s' = remove1 f (flights s)"
    and st': "settled s' = settled s @ settlements cfg (fst f) (snd f) ?resp"
    by (rule respond_effect)
  with fnd have f: "f = (rk, j)" by simp
  have st: "settled s' = settled s @ [(rk, jid j, Rejected ?err)]"
    using st' out by (simp add: f settlements_def)
  have fl: "flights s' = remove1 (rk, j) (flights s)" using fl' by (simp add: f)
  have new: "jid j \<notin> set (map (\<lambda>e. fst (snd e)) (settled s))"
  proof
    assume "jid j \<in> set (map (\<lambda>e. fst (snd e)) (settled s))"
    then have "jid j \<in> (\<lambda>e. fst (snd e)) ` set (settled s)" by simp
    then obtain e where "jid j = fst (snd e)" "e \<in> set (settled s)" by (rule imageE)
    with oo_apart [OF oo this(2) assms(2)] show False by simp
  qed
  have r': "reachable cfg g s'"
    by (rule reachable.after_step [OF assms(1), of "Respond (jid j) ?resp"]) (simp add: s')
  note oo' = reachable_owned_once [OF r']
  have mem: "(rk, jid j, Rejected ?err) \<in> set (settled s')" by (simp add: st)
  have gone: "jid j \<notin> set (map (\<lambda>f. jid (snd f)) (flights s'))"
  proof
    assume "jid j \<in> set (map (\<lambda>f. jid (snd f)) (flights s'))"
    then have "jid j \<in> (\<lambda>f. jid (snd f)) ` set (flights s')" by simp
    then obtain g where "jid j = jid (snd g)" "g \<in> set (flights s')" by (rule imageE)
    with oo_apart [OF oo' mem this(2)] show False by simp
  qed
  have out_of_queues: "\<forall>b. jid j \<notin> set (map jid (queued s' b))"
  proof
    fix b show "jid j \<notin> set (map jid (queued s' b))"
    proof
      assume "jid j \<in> set (map jid (queued s' b))"
      then have "jid j \<in> jid ` set (queued s' b)" by simp
      then obtain x where "jid j = jid x" "x \<in> set (queued s' b)" by (rule imageE)
      with oo_q_settled [OF oo' this(2) mem] show False by simp
    qed
  qed
  have later: "\<forall>es s''. steps cfg s' es = Some s'' \<longrightarrow>
            length (filter (\<lambda>e. fst (snd e) = jid j) (settled s'')) = 1"
  proof (intro allI impI)
    fix es s'' assume run: "steps cfg s' es = Some s''"
    from steps_settled [OF run] st obtain xs
      where "settled s'' = settled s @ [(rk, jid j, Rejected ?err)] @ xs" by auto
    then have mem'': "(rk, jid j, Rejected ?err) \<in> set (settled s'')" by simp
    have "distinct (map (\<lambda>e. fst (snd e)) (settled s''))"
      by (rule oo_settled [OF reachable_owned_once [OF steps_reachable [OF r' run]]])
    from once_in_distinct [OF this mem''] show
      "length (filter (\<lambda>e. fst (snd e) = jid j) (settled s'')) = 1" by simp
  qed
  show ?thesis
    using s' out new st fl gone out_of_queues later by (intro exI [of _ s']) simp
qed

theorem other_status_terminal_witness:
  "reachable example_config () (state_after example_config ban_lookup)
   \<and> flights (state_after example_config ban_lookup) =
       [(guild_ban, \<lparr>jid = 0, call = example_call ''get'' ''/guilds/1/bans/9'', attempt = 0,
                     forced = 0, notBefore = 0\<rparr>)]
   \<and> (404::nat) \<noteq> 429 \<and> \<not> (500 \<le> (404::nat) \<and> (404::nat) \<le> 599)
   \<and> \<not> (200 \<le> (404::nat) \<and> (404::nat) \<le> 299)
   \<and> settled (state_after example_config (ban_lookup @ [Respond 0 unknown_ban])) =
       [(guild_ban, 0, Rejected (HTTPError 404 (JStr ''{code: 10026, message: Unknown Ban}'')))]
   \<and> flights (state_after example_config (ban_lookup @ [Respond 0 unknown_ban])) = []
   \<and> queued (state_after example_config (ban_lookup @ [Respond 0 unknown_ban]))
        (Authoritative ''bans'') = []"
proof -
  let ?j = "\<lparr>jid = 0, call = example_call ''get'' ''/guilds/1/bans/9'', attempt = 0, forced = 0,
         notBefore = 0\<rparr>"
  let ?s = "state_after example_config ban_lookup"
  have run: "steps example_config (initial ()) ban_lookup \<noteq> None" by code_simp
  then have r: "reachable example_config () ?s" by (rule reachable_state_after)
  have f: "flights ?s = [(guild_ban, ?j)]" by code_simp
  then have fin: "(guild_ban, ?j) \<in> set (flights ?s)" by simp
  have e: "settled ?s = []" by code_simp
  from other_status_terminal [OF r fin, of 404 "example_headers ''bans''"
      "''{code: 10026, message: Unknown Ban}''"]
  obtain s' where s: "step example_config ?s (Respond 0 unknown_ban) = Some s'"
    and "settled s' = settled ?s @
           [(guild_ban, jid ?j, Rejected (HTTPError 404
              (parse example_config ''json'' ''{code: 10026, message: Unknown Ban}'')))]"
    and "flights s' = remove1 (guild_ban, ?j) (flights ?s)"
    unfolding unknown_ban_def by auto
  moreover from state_after_snoc [OF run s]
  have "state_after example_config (ban_lookup @ [Respond 0 unknown_ban]) = s'" .
  ultimately have
    "settled (state_after example_config (ban_lookup @ [Respond 0 unknown_ban])) =
       [(guild_ban, 0, Rejected (HTTPError 404 (JStr ''{code: 10026, message: Unknown Ban}'')))]"
    and "flights (state_after example_config (ban_lookup @ [Respond 0 unknown_ban])) = []"
    using e f by (simp_all add: example_config_def)
  moreover have "queued (state_after example_config (ban_lookup @ [Respond 0 unknown_ban]))
        (Authoritative ''bans'') = []"
    by code_simp
  ultimately show ?thesis using r f by simp
qed

end
